theory Spec2Isabelle
  imports Main "HOL-Library.AList"
begin

section \<open>Values\<close>

text \<open>
  Two views of a JavaScript value are used.

  The \<^emph>\<open>deep value\<close> of a nested structure is a \<open>json\<close> tree: scalars, sequences and
  mappings (a mapping is a map from keys to values, so key order plays no role). Equality
  of \<open>json\<close> trees is deep-value equality. Numbers are integers here; floating point
  (and so \<open>NaN\<close>) is left out. A deep value carries no identity, so the sharing between
  an old and a new root is not visible in it.

  The \<^emph>\<open>runtime value\<close> \<open>jsval\<close> is what \<open>===\<close> sees: a scalar, or a reference to an object
  or array living in a heap. Equality of \<open>jsval\<close> is \<open>===\<close>: two references are equal
  exactly when they are the same reference, whatever the objects hold.
\<close>

datatype json =
    JNull
  | JBool bool
  | JNum int
  | JStr string
  | JArr "json list"
  | JObj "string \<Rightarrow> json option"

type_synonym ref = nat

datatype jsval =
    VUndefined
  | VNull
  | VBool bool
  | VNum int
  | VStr string
  | VRef ref

datatype jsobj =
    OArr "jsval list"
  | OObj "string \<Rightarrow> jsval option"

record jsstate =
  heap :: "ref \<Rightarrow> jsobj option"
  root :: jsval

section \<open>Pointer (src/stores/state/Pointer, not among the sources)\<close>

text \<open>
  Modelled from the spec: the class \<open>Pointer\<close> imported by \<open>Store.ts\<close> is missing from
  the sources. Section 4.1 of the specification describes it: an address is a list of
  string segments; its string form joins the segments with \<open>/\<close>, each segment escaped;
  \<open>segments\<close> is the inverse; \<open>resolve\<close> walks a root by segment and yields Undefined
  as soon as a segment is absent.
\<close>

record Pointer =
  segments :: "string list"

text \<open>
  Modelled from the spec: the escape of a segment, missing with \<open>Pointer\<close>. The
  specification asks for a symmetric escape and does not name it; the source calls the
  string form a JSON Pointer, whose escape writes \<open>~\<close> as \<open>~0\<close> and \<open>/\<close> as \<open>~1\<close>.
\<close>

fun encode :: "string \<Rightarrow> string" where
  "encode [] = []"
| "encode (c # cs) =
     (if c = CHR ''~'' then ''~0'' @ encode cs
      else if c = CHR ''/'' then ''~1'' @ encode cs
      else c # encode cs)"

text \<open>Modelled from the spec: the inverse of the escape, missing with \<open>Pointer\<close>.\<close>

fun decode :: "string \<Rightarrow> string" where
  "decode [] = []"
| "decode [c] = [c]"
| "decode (c # d # cs) =
     (if c = CHR ''~'' \<and> d = CHR ''1'' then CHR ''/'' # decode cs
      else if c = CHR ''~'' \<and> d = CHR ''0'' then CHR ''~'' # decode cs
      else c # decode (d # cs))"

text \<open>
  Modelled from the spec: cutting a pointer string at every \<open>/\<close>, missing with
  \<open>Pointer\<close>; \<open>cur\<close> is the segment read so far, backwards.
\<close>

fun split_slash :: "string \<Rightarrow> string \<Rightarrow> string list" where
  "split_slash cur [] = [rev cur]"
| "split_slash cur (c # cs) =
     (if c = CHR ''/'' then rev cur # split_slash [] cs else split_slash (c # cur) cs)"

text \<open>
  Modelled from the spec: the constructor \<open>new Pointer(x)\<close>, missing with \<open>Pointer\<close>, for
  a string or a list of segments. The empty string and \<open>/\<close> are the root pointer (no
  segment); a leading \<open>/\<close> is optional.
\<close>

definition Pointer_new :: "string + string list \<Rightarrow> Pointer" where
  "Pointer_new x =
     (case x of
        Inr segs \<Rightarrow> \<lparr>segments = segs\<rparr>
      | Inl s \<Rightarrow>
          (if s = [] \<or> s = ''/'' then \<lparr>segments = []\<rparr>
           else \<lparr>segments = map decode (split_slash [] (if hd s = CHR ''/'' then tl s else s))\<rparr>))"

text \<open>Modelled from the spec: the getter \<open>pointer.path\<close>, missing with \<open>Pointer\<close>.\<close>

definition Pointer_path :: "Pointer \<Rightarrow> string" where
  "Pointer_path p = concat (map (\<lambda>s. CHR ''/'' # encode s) (segments p))"

text \<open>Modelled from the spec: the decimal digits, for the index segments of \<open>Pointer\<close>.\<close>

definition is_digit :: "char \<Rightarrow> bool" where
  "is_digit c = (c \<in> set ''0123456789'')"

text \<open>
  Modelled from the spec: the index a segment of \<open>Pointer\<close> stands for in an array. The
  specification speaks of key and index segments only; a segment is an index when it is
  a non-empty string of decimal digits.
\<close>

definition array_index :: "string \<Rightarrow> nat option" where
  "array_index s =
     (if s \<noteq> [] \<and> list_all is_digit s
      then Some (foldl (\<lambda>n c. 10 * n + (of_char c - 48)) 0 s)
      else None)"

text \<open>
  Modelled from the spec: one step of \<open>resolve\<close> of \<open>Pointer\<close> on a deep value: the key
  of a mapping, the index of a sequence within its length; anything else is absent.
\<close>

fun child :: "json \<Rightarrow> string \<Rightarrow> json option" where
  "child (JObj m) k = m k"
| "child (JArr xs) k =
     (case array_index k of
        None \<Rightarrow> None
      | Some i \<Rightarrow> if i < length xs then Some (xs ! i) else None)"
| "child _ k = None"

text \<open>
  Modelled from the spec: \<open>resolve(address, root)\<close> of \<open>Pointer\<close> on a deep value;
  \<open>None\<close> is Undefined.
\<close>

fun resolve :: "string list \<Rightarrow> json \<Rightarrow> json option" where
  "resolve [] v = Some v"
| "resolve (k # ks) v = (case child v k of None \<Rightarrow> None | Some c \<Rightarrow> resolve ks c)"

text \<open>
  Modelled from the spec: \<open>pointer.get(root)\<close> of \<open>Pointer\<close> on a deep value. Used on
  scalars and Undefined, where equality of deep values is \<open>===\<close>.
\<close>

definition Pointer_get :: "Pointer \<Rightarrow> json \<Rightarrow> json option" where
  "Pointer_get p r = resolve (segments p) r"

text \<open>
  Modelled from the spec: one step of \<open>resolve\<close> of \<open>Pointer\<close> on a runtime value,
  through the heap. The value found is what \<open>===\<close> will compare: a scalar or a reference.
\<close>

fun ref_child :: "(ref \<Rightarrow> jsobj option) \<Rightarrow> jsval \<Rightarrow> string \<Rightarrow> jsval" where
  "ref_child h (VRef r) k =
     (case h r of
        Some (OObj m) \<Rightarrow> (case m k of None \<Rightarrow> VUndefined | Some v \<Rightarrow> v)
      | Some (OArr xs) \<Rightarrow>
          (case array_index k of
             None \<Rightarrow> VUndefined
           | Some i \<Rightarrow> if i < length xs then xs ! i else VUndefined)
      | None \<Rightarrow> VUndefined)"
| "ref_child h _ k = VUndefined"

text \<open>Modelled from the spec: \<open>resolve(address, root)\<close> of \<open>Pointer\<close> on a runtime value.\<close>

fun ref_resolve :: "(ref \<Rightarrow> jsobj option) \<Rightarrow> string list \<Rightarrow> jsval \<Rightarrow> jsval" where
  "ref_resolve h [] v = v"
| "ref_resolve h (k # ks) v =
     (case ref_child h v k of VUndefined \<Rightarrow> VUndefined | c \<Rightarrow> ref_resolve h ks c)"

text \<open>Modelled from the spec: \<open>pointer.get(root)\<close> of \<open>Pointer\<close> on a runtime value.\<close>

definition Pointer_get_ref :: "Pointer \<Rightarrow> jsstate \<Rightarrow> jsval" where
  "Pointer_get_ref p st = ref_resolve (heap st) (segments p) (root st)"

text \<open>
  Deep-value equality of two runtime values in a heap, to depth \<open>n\<close>: scalars by value,
  arrays element by element, objects key by key over the listed keys \<open>ks\<close>.
\<close>

fun deep_equal :: "nat \<Rightarrow> string list \<Rightarrow> (ref \<Rightarrow> jsobj option) \<Rightarrow> jsval \<Rightarrow> jsval \<Rightarrow> bool" where
  "deep_equal 0 ks h a b = (a = b)"
| "deep_equal (Suc n) ks h (VRef r) (VRef r') =
     (case (h r, h r') of
        (Some (OArr xs), Some (OArr ys)) \<Rightarrow> list_all2 (deep_equal n ks h) xs ys
      | (Some (OObj m), Some (OObj m')) \<Rightarrow>
          list_all (\<lambda>k. rel_option (deep_equal n ks h) (m k) (m' k)) ks
      | _ \<Rightarrow> False)"
| "deep_equal (Suc n) ks h a b = (a = b)"

section \<open>Patch (src/stores/state/Patch, not among the sources)\<close>

text \<open>
  Modelled from the spec: the type \<open>PatchOperation\<close> of the missing module \<open>Patch\<close>. The
  sources build an operation as \<open>{ op, path, value }\<close> with \<open>path\<close> a \<open>Pointer\<close>; the
  specification names three kinds, \<open>Add(address, value)\<close>, \<open>Replace(address, value)\<close>
  and \<open>Remove(address)\<close>. The type of the address is a parameter: a \<open>Pointer\<close> inside
  the program, its plain string where an operation crosses the worker boundary.
\<close>

datatype 'a operation =
    Add 'a json
  | Replace 'a json
  | Remove 'a

text \<open>
  What \<open>patch.apply\<close> returns; \<open>Store.apply\<close> reads its fields \<open>object\<close> and
  \<open>undoOperations\<close>.
\<close>

record ('st, 'op) PatchResult =
  object :: 'st
  undoOperations :: "'op list"

text \<open>
  The class \<open>Patch\<close> imported by \<open>Store.ts\<close> is missing from the sources. Section 4.2 of
  the specification gives its algorithm, which is modelled here on deep values. Where the
  specification is silent the model does nothing: an operation on the root address (it
  has no parent container), an \<open>Add\<close> into a scalar, an \<open>Add\<close> at an index beyond the
  length of an array or at a segment of an array that is no index.
\<close>

text \<open>
  Modelled from the spec: writing a slot of \<open>Patch\<close> that exists: the key of a mapping,
  the element of a sequence.
\<close>

fun set_child :: "json \<Rightarrow> string \<Rightarrow> json \<Rightarrow> json" where
  "set_child (JObj m) k v = JObj (m(k \<mapsto> v))"
| "set_child (JArr xs) k v =
     (case array_index k of None \<Rightarrow> JArr xs | Some i \<Rightarrow> JArr (xs[i := v]))"
| "set_child j k v = j"

text \<open>
  Modelled from the spec: removing a slot of \<open>Patch\<close> that exists; a sequence closes the
  gap.
\<close>

fun delete_child :: "json \<Rightarrow> string \<Rightarrow> json" where
  "delete_child (JObj m) k = JObj (m(k := None))"
| "delete_child (JArr xs) k =
     (case array_index k of None \<Rightarrow> JArr xs | Some i \<Rightarrow> JArr (take i xs @ drop (Suc i) xs))"
| "delete_child j k = j"

text \<open>
  Modelled from the spec: \<open>Add\<close> of \<open>Patch\<close> at the last segment: a mapping takes any
  key, a sequence takes an index up to its length and shifts the later elements
  (insertion), a scalar takes nothing.
\<close>

fun insert_child :: "json \<Rightarrow> string \<Rightarrow> json \<Rightarrow> json option" where
  "insert_child (JObj m) k v = Some (JObj (m(k \<mapsto> v)))"
| "insert_child (JArr xs) k v =
     (case array_index k of
        None \<Rightarrow> None
      | Some i \<Rightarrow> if i \<le> length xs then Some (JArr (take i xs @ v # drop i xs)) else None)"
| "insert_child j k v = None"

text \<open>
  Modelled from the spec: the value an \<open>Add\<close> of \<open>Patch\<close> overwrites: the one under a
  key already present in a mapping; an insertion into a sequence overwrites nothing.
\<close>

fun overwritten :: "json \<Rightarrow> string \<Rightarrow> json option" where
  "overwritten (JObj m) k = m k"
| "overwritten j k = None"

text \<open>
  Modelled from the spec: the intermediate container an \<open>Add\<close> of \<open>Patch\<close> creates for an
  absent ancestor ("creating intermediate containers only for Add when the address targets
  a new array append or object key"): a sequence when the next segment is an index, a
  mapping otherwise.
\<close>

definition new_container :: "string \<Rightarrow> json" where
  "new_container k = (if array_index k = None then JObj Map.empty else JArr [])"

text \<open>
  Modelled from the spec: \<open>Add\<close> of \<open>Patch\<close> along an address. It returns \<open>None\<close> when
  the operation does nothing, and otherwise the new node with the value it overwrote, if
  any. An absent ancestor is created as an intermediate container.
\<close>

fun add_at :: "string list \<Rightarrow> json \<Rightarrow> json \<Rightarrow> (json \<times> json option) option" where
  "add_at [] v node = None"
| "add_at [k] v node =
     (case insert_child node k v of
        None \<Rightarrow> None
      | Some node' \<Rightarrow> Some (node', overwritten node k))"
| "add_at (k # k' # ks) v node =
     (case child node k of
        Some c \<Rightarrow>
          (case add_at (k' # ks) v c of
             None \<Rightarrow> None
           | Some (c', prev) \<Rightarrow> Some (set_child node k c', prev))
      | None \<Rightarrow>
          (case add_at (k' # ks) v (new_container k') of
             None \<Rightarrow> None
           | Some (c', prev) \<Rightarrow>
               (case insert_child node k c' of
                  None \<Rightarrow> None
                | Some node' \<Rightarrow> Some (node', prev))))"

text \<open>
  Modelled from the spec: \<open>Replace\<close> of \<open>Patch\<close> along an address. It returns \<open>None\<close>
  when the slot or an ancestor is absent (the operation does nothing), and otherwise the
  new node with the previous value.
\<close>

fun replace_at :: "string list \<Rightarrow> json \<Rightarrow> json \<Rightarrow> (json \<times> json) option" where
  "replace_at [] v node = None"
| "replace_at [k] v node =
     (case child node k of None \<Rightarrow> None | Some old \<Rightarrow> Some (set_child node k v, old))"
| "replace_at (k # k' # ks) v node =
     (case child node k of
        None \<Rightarrow> None
      | Some c \<Rightarrow>
          (case replace_at (k' # ks) v c of
             None \<Rightarrow> None
           | Some (c', old) \<Rightarrow> Some (set_child node k c', old)))"

text \<open>
  Modelled from the spec: \<open>Remove\<close> of \<open>Patch\<close> along an address. It returns \<open>None\<close>
  when the slot or an ancestor is absent (the operation does nothing), and otherwise the
  new node with the value removed.
\<close>

fun remove_at :: "string list \<Rightarrow> json \<Rightarrow> (json \<times> json) option" where
  "remove_at [] node = None"
| "remove_at [k] node =
     (case child node k of None \<Rightarrow> None | Some old \<Rightarrow> Some (delete_child node k, old))"
| "remove_at (k # k' # ks) node =
     (case child node k of
        None \<Rightarrow> None
      | Some c \<Rightarrow>
          (case remove_at (k' # ks) c of
             None \<Rightarrow> None
           | Some (c', old) \<Rightarrow> Some (set_child node k c', old)))"

text \<open>
  Modelled from the spec: one operation of \<open>Patch\<close>, with its inverse. \<open>Add\<close> is undone by \<open>Remove\<close>
  when the slot was absent (or an array insertion) and by \<open>Replace\<close> with the previous
  value when it overwrote a slot; \<open>Replace\<close> by \<open>Replace\<close> with the previous value;
  \<open>Remove\<close> by \<open>Add\<close> with the previous value. An operation that does nothing leaves the
  root as it is and contributes no inverse.
\<close>

fun apply_operation :: "Pointer operation \<Rightarrow> json \<Rightarrow> json \<times> Pointer operation list" where
  "apply_operation (Add p v) r =
     (case add_at (segments p) v r of
        None \<Rightarrow> (r, [])
      | Some (r', None) \<Rightarrow> (r', [Remove p])
      | Some (r', Some old) \<Rightarrow> (r', [Replace p old]))"
| "apply_operation (Replace p v) r =
     (case replace_at (segments p) v r of
        None \<Rightarrow> (r, [])
      | Some (r', old) \<Rightarrow> (r', [Replace p old]))"
| "apply_operation (Remove p) r =
     (case remove_at (segments p) r of
        None \<Rightarrow> (r, [])
      | Some (r', old) \<Rightarrow> (r', [Add p old]))"

text \<open>
  Modelled from the spec: the loop of \<open>Patch\<close> over the operations, in order; each inverse
  is put in front of the undo list, so that the list read in order undoes the batch
  backwards.
\<close>

fun patch_loop ::
  "Pointer operation list \<Rightarrow> json \<Rightarrow> Pointer operation list \<Rightarrow> json \<times> Pointer operation list" where
  "patch_loop [] r undo = (r, undo)"
| "patch_loop (operation # rest) r undo =
     (case apply_operation operation r of (r', inverses) \<Rightarrow> patch_loop rest r' (inverses @ undo))"

text \<open>Modelled from the spec: \<open>new Patch(operations).apply(root)\<close>.\<close>

definition Patch_apply :: "Pointer operation list \<Rightarrow> json \<Rightarrow> (json, Pointer operation) PatchResult" where
  "Patch_apply operations r =
     (case patch_loop operations r [] of (r', undo) \<Rightarrow> \<lparr>object = r', undoOperations = undo\<rparr>)"

text \<open>
  \<open>parent_resolves operation r\<close>: if the operation is an \<open>Add\<close>, the parent of its address
  resolves in \<open>r\<close>.
\<close>

fun parent_resolves :: "Pointer operation \<Rightarrow> json \<Rightarrow> bool" where
  "parent_resolves (Add p v) r = (resolve (butlast (segments p)) r \<noteq> None)"
| "parent_resolves (Replace p v) r = True"
| "parent_resolves (Remove p) r = True"

text \<open>
  \<open>adds_into_existing ops r\<close>: while the batch \<open>ops\<close> runs from the root \<open>r\<close>, the parent
  address of every \<open>Add\<close> resolves in the root the \<open>Add\<close> is applied to, so that no \<open>Add\<close>
  has to create an intermediate container.
\<close>

fun adds_into_existing :: "Pointer operation list \<Rightarrow> json \<Rightarrow> bool" where
  "adds_into_existing [] r = True"
| "adds_into_existing (operation # rest) r =
     (parent_resolves operation r \<and> adds_into_existing rest (fst (apply_operation operation r)))"

section \<open>Store (src/stores/Store.ts)\<close>

text \<open>
  \<open>Path<M, T>\<close>: a pointer string, the state it was built against and the value it
  resolved to when it was built.
\<close>

record ('m, 'v) Path =
  path :: string
  state :: 'm
  value' :: 'v

record 'cb OnChangeCallback =
  callbackId :: nat
  callback :: 'cb

record ('v, 'cb) OnChangeValue =
  callbacks :: "'cb OnChangeCallback list"
  previousValue :: 'v

text \<open>
  The class \<open>Store<T>\<close>. The type \<open>'st\<close> is \<open>T\<close>, the type of the root; \<open>'v\<close> is the type
  of the values a pointer resolves to, whose equality stands for \<open>===\<close>; \<open>'cb\<close> is the
  type of callbacks. A callback is opaque: calling it is recorded as an effect, and it is
  taken to return normally without calling back into the store. The private fields
  \<open>_state\<close>, \<open>_changePaths\<close> and \<open>_callbackId\<close> carry the prefix \<open>store_\<close>.
  \<open>_changePaths\<close> is a \<open>Map\<close>, which iterates in insertion order: an association list,
  read with \<open>map_of\<close> and written with \<open>AList.update\<close> (an existing key keeps its place,
  a new key goes last). \<open>_callbackId\<close> is a natural number.
\<close>

record ('st, 'v, 'cb) Store =
  store_state :: 'st
  store_changePaths :: "(string \<times> ('v, 'cb) OnChangeValue) list"
  store_callbackId :: nat

text \<open>
  What a call does beyond changing the store: it calls callbacks and emits events on
  \<open>Evented\<close> (not among the sources; an emitted event is recorded by its type).
\<close>

datatype 'cb effect =
    Called "'cb OnChangeCallback"
  | Emitted string

text \<open>The object \<open>onChange\<close> returns: its \<open>remove\<close> closes over \<open>paths\<close> and \<open>callbackId\<close>.\<close>

record ('m, 'v) handle =
  handle_paths :: "('m, 'v) Path list"
  handle_callbackId :: nat

text \<open>A new store: \<open>_state = {}\<close> (the empty object of \<open>T\<close> is given), no subscription.\<close>

definition Store_new :: "'st \<Rightarrow> ('st, 'v, 'cb) Store" where
  "Store_new empty_object = \<lparr>store_state = empty_object, store_changePaths = [], store_callbackId = 0\<rparr>"

text \<open>\<open>get(path)\<close> returns the value the path carries.\<close>

definition Store_get :: "('st, 'v) Path \<Rightarrow> 'v" where
  "Store_get p = value' p"

text \<open>
  \<open>_addOnChange\<close>: the entry of the address, or a new one whose baseline is
  \<open>this.get(path)\<close>; the callback is pushed and the entry is set.
\<close>

definition Store_addOnChange ::
  "('st, 'v) Path \<Rightarrow> 'cb \<Rightarrow> nat \<Rightarrow> ('st, 'v, 'cb) Store \<Rightarrow> ('st, 'v, 'cb) Store" where
  "Store_addOnChange p cb cbId s =
     (let changePaths =
            (case map_of (store_changePaths s) (path p) of
               None \<Rightarrow> \<lparr>callbacks = [], previousValue = Store_get p\<rparr>
             | Some found \<Rightarrow> found);
          changePaths' =
            changePaths\<lparr>callbacks := callbacks changePaths @ [\<lparr>callbackId = cbId, callback = cb\<rparr>]\<rparr>
      in s\<lparr>store_changePaths := AList.update (path p) changePaths' (store_changePaths s)\<rparr>)"

text \<open>
  \<open>onChange(paths, callback)\<close>; \<open>paths\<close> is one path or an array of paths. It returns
  the handle and the store.
\<close>

definition Store_onChange ::
  "('st, 'v) Path + ('st, 'v) Path list \<Rightarrow> 'cb \<Rightarrow> ('st, 'v, 'cb) Store \<Rightarrow>
     ('st, 'v) handle \<times> ('st, 'v, 'cb) Store" where
  "Store_onChange paths cb s =
     (let cbId = store_callbackId s;
          paths' = (case paths of Inl p \<Rightarrow> [p] | Inr ps \<Rightarrow> ps);
          s' = fold (\<lambda>p. Store_addOnChange p cb cbId) paths' s
      in (\<lparr>handle_paths = paths', handle_callbackId = cbId\<rparr>,
          s'\<lparr>store_callbackId := store_callbackId s' + 1\<rparr>))"

text \<open>
  \<open>remove()\<close> of the handle, for one path: the callbacks of the entry of its address are
  filtered in place.
\<close>

definition remove_path ::
  "nat \<Rightarrow> ('st, 'v) Path \<Rightarrow> ('st, 'v, 'cb) Store \<Rightarrow> ('st, 'v, 'cb) Store" where
  "remove_path cbId p s =
     (case map_of (store_changePaths s) (path p) of
        None \<Rightarrow> s
      | Some onChange \<Rightarrow>
          s\<lparr>store_changePaths :=
              AList.update (path p)
                (onChange\<lparr>callbacks := filter (\<lambda>c. callbackId c \<noteq> cbId) (callbacks onChange)\<rparr>)
                (store_changePaths s)\<rparr>)"

text \<open>\<open>remove()\<close> of the handle: \<open>paths.forEach\<close>.\<close>

definition handle_remove :: "('st, 'v) handle \<Rightarrow> ('st, 'v, 'cb) Store \<Rightarrow> ('st, 'v, 'cb) Store" where
  "handle_remove h s = fold (remove_path (handle_callbackId h)) (handle_paths h) s"

text \<open>
  \<open>_runOnChanges\<close>. The inner loop \<open>callbacks.forEach\<close> carries \<open>callbackIdsCalled\<close> and
  the callbacks called so far.
\<close>

fun callbacks_forEach ::
  "'cb OnChangeCallback list \<Rightarrow> nat list \<times> 'cb OnChangeCallback list \<Rightarrow>
     nat list \<times> 'cb OnChangeCallback list" where
  "callbacks_forEach [] (callbackIdsCalled, fired) = (callbackIdsCalled, fired)"
| "callbacks_forEach (callbackItem # rest) (callbackIdsCalled, fired) =
     (if callbackId callbackItem \<notin> set callbackIdsCalled
      then callbacks_forEach rest
             (callbackIdsCalled @ [callbackId callbackItem], fired @ [callbackItem])
      else callbacks_forEach rest (callbackIdsCalled, fired))"

text \<open>
  The outer loop \<open>this._changePaths.forEach\<close> visits the entries in order. The parameter
  \<open>pg\<close> is \<open>pointer.get(root)\<close> of the missing class \<open>Pointer\<close>.
\<close>

fun changePaths_forEach ::
  "(Pointer \<Rightarrow> 'st \<Rightarrow> 'v) \<Rightarrow> (string \<times> ('v, 'cb) OnChangeValue) list \<Rightarrow>
     ('st, 'v, 'cb) Store \<times> nat list \<times> 'cb OnChangeCallback list \<Rightarrow>
     ('st, 'v, 'cb) Store \<times> nat list \<times> 'cb OnChangeCallback list" where
  "changePaths_forEach pg [] acc = acc"
| "changePaths_forEach pg ((p, v) # rest) (s, callbackIdsCalled, fired) =
     (let newValue = pg (Pointer_new (Inl p)) (store_state s)
      in if previousValue v \<noteq> newValue
         then changePaths_forEach pg rest
                (case callbacks_forEach (callbacks v) (callbackIdsCalled, fired) of
                   (callbackIdsCalled', fired') \<Rightarrow>
                     (s\<lparr>store_changePaths :=
                          AList.update p \<lparr>callbacks = callbacks v, previousValue = newValue\<rparr>
                            (store_changePaths s)\<rparr>,
                      callbackIdsCalled', fired'))
         else changePaths_forEach pg rest (s, callbackIdsCalled, fired))"

text \<open>\<open>_runOnChanges\<close> returns the store and the callbacks it called, in order.\<close>

definition Store_runOnChanges ::
  "(Pointer \<Rightarrow> 'st \<Rightarrow> 'v) \<Rightarrow> ('st, 'v, 'cb) Store \<Rightarrow>
     ('st, 'v, 'cb) Store \<times> 'cb OnChangeCallback list" where
  "Store_runOnChanges pg s =
     (case changePaths_forEach pg (store_changePaths s) (s, [], []) of
        (s', callbackIdsCalled, fired) \<Rightarrow> (s', fired))"

text \<open>\<open>invalidate()\<close>: \<open>_runOnChanges\<close>, then \<open>emit({ type: 'invalidate' })\<close>.\<close>

definition Store_invalidate ::
  "(Pointer \<Rightarrow> 'st \<Rightarrow> 'v) \<Rightarrow> ('st, 'v, 'cb) Store \<Rightarrow> ('st, 'v, 'cb) Store \<times> 'cb effect list" where
  "Store_invalidate pg s =
     (case Store_runOnChanges pg s of (s', fired) \<Rightarrow> (s', map Called fired @ [Emitted ''invalidate'']))"

text \<open>
  \<open>apply(operations, invalidate = false)\<close>. The parameter \<open>pa\<close> is
  \<open>new Patch(operations).apply(root)\<close> of the missing class \<open>Patch\<close>; an omitted
  \<open>invalidate\<close> is \<open>None\<close>.
\<close>

definition Store_apply ::
  "('op list \<Rightarrow> 'st \<Rightarrow> ('st, 'op) PatchResult) \<Rightarrow> (Pointer \<Rightarrow> 'st \<Rightarrow> 'v) \<Rightarrow>
     'op list \<Rightarrow> bool option \<Rightarrow> ('st, 'v, 'cb) Store \<Rightarrow>
     'op list \<times> ('st, 'v, 'cb) Store \<times> 'cb effect list" where
  "Store_apply pa pg operations invalidate s =
     (let patchResult = pa operations (store_state s);
          s' = s\<lparr>store_state := object patchResult\<rparr>
      in if (case invalidate of None \<Rightarrow> False | Some b \<Rightarrow> b)
         then (case Store_invalidate pg s' of (s'', effects) \<Rightarrow> (undoOperations patchResult, s'', effects))
         else (undoOperations patchResult, s', []))"

text \<open>\<open>isString\<close> filters the segments that are strings out of \<open>(string | undefined)[]\<close>.\<close>

definition isString :: "string option \<Rightarrow> bool" where
  "isString segment = (segment \<noteq> None)"

text \<open>
  The pointer that \<open>path(path, ...segments)\<close> builds, in \<open>Store\<close> and in \<open>WorkerStore\<close>
  alike.
\<close>

definition path_pointer :: "string + ('m, 'v) Path \<Rightarrow> string option list \<Rightarrow> Pointer" where
  "path_pointer p segs =
     (let segs' =
            (case p of
               Inl str \<Rightarrow> Some str # segs
             | Inr base \<Rightarrow> map Some (segments (Pointer_new (Inl (path base)))) @ segs);
          stringSegments = map the (filter isString segs');
          hasMultipleSegments = (length stringSegments > 1)
      in Pointer_new
           (if hasMultipleSegments then Inr stringSegments
            else Inl (case stringSegments of [] \<Rightarrow> [] | x # rest \<Rightarrow> x)))"

text \<open>\<open>path\<close> of \<open>Store\<close>: the value is resolved against \<open>_state\<close>.\<close>

definition Store_path ::
  "(Pointer \<Rightarrow> 'st \<Rightarrow> 'v) \<Rightarrow> string + ('st, 'v) Path \<Rightarrow> string option list \<Rightarrow>
     ('st, 'v, 'cb) Store \<Rightarrow> ('st, 'v) Path" where
  "Store_path pg p segs s =
     (let pointer = path_pointer p segs
      in \<lparr>path = Pointer_path pointer, state = store_state s, value' = pg pointer (store_state s)\<rparr>)"

text \<open>
  A client of a store makes calls one after the other; \<open>Store_calls\<close> runs a list of
  them and collects the effects.
\<close>

datatype ('st, 'v, 'op, 'cb) store_call =
    Apply "'op list" "bool option"
  | OnChange "('st, 'v) Path + ('st, 'v) Path list" 'cb
  | HandleRemove "('st, 'v) handle"
  | Invalidate

text \<open>One call; the handle and the undo list a call returns are dropped here.\<close>

fun Store_call ::
  "('op list \<Rightarrow> 'st \<Rightarrow> ('st, 'op) PatchResult) \<Rightarrow> (Pointer \<Rightarrow> 'st \<Rightarrow> 'v) \<Rightarrow>
     ('st, 'v, 'op, 'cb) store_call \<Rightarrow> ('st, 'v, 'cb) Store \<Rightarrow>
     ('st, 'v, 'cb) Store \<times> 'cb effect list" where
  "Store_call pa pg (Apply operations invalidate) s =
     (case Store_apply pa pg operations invalidate s of (undo, s', effects) \<Rightarrow> (s', effects))"
| "Store_call pa pg (OnChange paths cb) s = (snd (Store_onChange paths cb s), [])"
| "Store_call pa pg (HandleRemove h) s = (handle_remove h s, [])"
| "Store_call pa pg Invalidate s = Store_invalidate pg s"

text \<open>A list of calls, one after the other.\<close>

fun Store_calls ::
  "('op list \<Rightarrow> 'st \<Rightarrow> ('st, 'op) PatchResult) \<Rightarrow> (Pointer \<Rightarrow> 'st \<Rightarrow> 'v) \<Rightarrow>
     ('st, 'v, 'op, 'cb) store_call list \<Rightarrow> ('st, 'v, 'cb) Store \<Rightarrow>
     ('st, 'v, 'cb) Store \<times> 'cb effect list" where
  "Store_calls pa pg [] s = (s, [])"
| "Store_calls pa pg (c # cs) s =
     (case Store_call pa pg c s of
        (s', effects) \<Rightarrow>
          (case Store_calls pa pg cs s' of (s'', effects') \<Rightarrow> (s'', effects @ effects')))"

text \<open>The callbacks called under subscriber id \<open>i\<close> among some effects.\<close>

fun calls_of :: "nat \<Rightarrow> 'cb effect list \<Rightarrow> 'cb list" where
  "calls_of i [] = []"
| "calls_of i (Called c # es) = (if callbackId c = i then callback c # calls_of i es else calls_of i es)"
| "calls_of i (Emitted t # es) = calls_of i es"

text \<open>The types of the events emitted among some effects.\<close>

fun emitted :: "'cb effect list \<Rightarrow> string list" where
  "emitted [] = []"
| "emitted (Called c # es) = emitted es"
| "emitted (Emitted t # es) = t # emitted es"

text \<open>The three parts of what \<open>Store_apply\<close> returns.\<close>

definition undo_of :: "'a \<times> 'b \<times> 'c \<Rightarrow> 'a" where
  "undo_of r = fst r"

definition store_of :: "'a \<times> 'b \<times> 'c \<Rightarrow> 'b" where
  "store_of r = fst (snd r)"

definition effects_of :: "'a \<times> 'b \<times> 'c \<Rightarrow> 'c" where
  "effects_of r = snd (snd r)"

section \<open>WorkerStore\<close>

text \<open>
  The sources hold two revisions of the class \<open>WorkerStore\<close>: the one of
  \<open>src/stores/Store.ts\<close>, whose \<open>apply\<close> is a stub, and the one of the unnamed source file,
  which sends every request to the worker. Both keep a counter \<open>_messageId\<close> and a table
  \<open>_messageQueue\<close> from message identifiers to the \<open>resolve\<close> functions of pending
  promises.

  A promise is a \<open>waiter\<close>: it is settled with a result or still pending, and it carries
  what the code chained on it with \<open>then\<close> (whether \<open>invalidate\<close> runs before the caller
  gets the result). A promise is named by its position in \<open>ws_waiters\<close>; its \<open>resolve\<close>
  function is that position. The worker, the console and \<open>Evented\<close> are outside the
  sources: a message posted to the worker, a warning and an emitted event are each
  recorded in a list. Values that cross the worker boundary are deep values. Message
  identifiers are integers; the counter is taken to stay in the range where \<open>++\<close> is exact.

  The continuation of a promise runs in microtasks, before the next message is handled;
  it is run here at the moment the promise is resolved.
\<close>

datatype payload =
    PayloadPath string
  | PayloadOperations "string operation list"

record message =
  msg_id :: int
  msg_type :: string
  msg_payload :: payload

record response =
  data_id :: int
  data_result :: json

record waiter =
  then_invalidate :: bool
  settled :: "json option"

record WorkerStore =
  ws_messageId :: int
  ws_messageQueue :: "int \<Rightarrow> nat option"
  ws_waiters :: "waiter list"
  ws_posted :: "message list"
  ws_warnings :: "int list"
  ws_events :: "string list"

definition WorkerStore_new :: WorkerStore where
  "WorkerStore_new =
     \<lparr>ws_messageId = 0, ws_messageQueue = Map.empty, ws_waiters = [], ws_posted = [],
      ws_warnings = [], ws_events = []\<rparr>"

text \<open>
  \<open>invalidate\<close> of the proxying revision: \<open>_runOnChanges\<close> walks \<open>_changePaths\<close>, which
  this revision creates empty and never writes (its \<open>_addOnChange\<close> is commented out), so
  the walk visits nothing; then the event is emitted.
\<close>

definition WorkerStore_invalidate :: "WorkerStore \<Rightarrow> WorkerStore" where
  "WorkerStore_invalidate ws = ws\<lparr>ws_events := ws_events ws @ [''invalidate'']\<rparr>"

text \<open>
  Calling the \<open>resolve\<close> function of promise \<open>p\<close> with \<open>v\<close>: a pending promise runs its
  continuation and is settled with \<open>v\<close>; a settled promise stays as it is.
\<close>

definition resolve_waiter :: "nat \<Rightarrow> json \<Rightarrow> WorkerStore \<Rightarrow> WorkerStore" where
  "resolve_waiter p v ws =
     (if p < length (ws_waiters ws)
      then (let w = ws_waiters ws ! p
            in case settled w of
                 Some done \<Rightarrow> ws
               | None \<Rightarrow>
                   (let ws' = (if then_invalidate w then WorkerStore_invalidate ws else ws)
                    in ws'\<lparr>ws_waiters := (ws_waiters ws')[p := w\<lparr>settled := Some v\<rparr>]\<rparr>))
      else ws)"

text \<open>The handler \<open>this._worker.onmessage\<close> of the proxying revision.\<close>

definition WorkerStore_onmessage :: "response \<Rightarrow> WorkerStore \<Rightarrow> WorkerStore" where
  "WorkerStore_onmessage data ws =
     (let mid = data_id data
      in case ws_messageQueue ws mid of
           Some resolve_fn \<Rightarrow>
             (let ws' = resolve_waiter resolve_fn (data_result data) ws
              in ws'\<lparr>ws_messageQueue := (ws_messageQueue ws')(mid := None)\<rparr>)
         | None \<Rightarrow> ws\<lparr>ws_warnings := ws_warnings ws @ [mid]\<rparr>)"

text \<open>\<open>_getResult\<close>: the next identifier, and a new pending promise filed under it.\<close>

definition WorkerStore_getResult :: "WorkerStore \<Rightarrow> nat \<times> WorkerStore" where
  "WorkerStore_getResult ws =
     (let ws' = ws\<lparr>ws_messageId := ws_messageId ws + 1\<rparr>;
          p = length (ws_waiters ws')
      in (p, ws'\<lparr>ws_waiters := ws_waiters ws' @ [\<lparr>then_invalidate = False, settled = None\<rparr>],
                ws_messageQueue := (ws_messageQueue ws')(ws_messageId ws' \<mapsto> p)\<rparr>))"

definition WorkerStore_get :: "('m, 'v) Path \<Rightarrow> WorkerStore \<Rightarrow> nat \<times> WorkerStore" where
  "WorkerStore_get p ws =
     (case WorkerStore_getResult ws of
        (result, ws') \<Rightarrow>
          (result,
           ws'\<lparr>ws_posted := ws_posted ws' @
                 [\<lparr>msg_id = ws_messageId ws', msg_type = ''get'', msg_payload = PayloadPath (path p)\<rparr>]\<rparr>))"

text \<open>
  \<open>apply\<close> of the proxying revision. The operations go out with their address reduced to
  its string (\<open>{ ...op, path: op.path.path }\<close>); the continuation chained on the result
  runs \<open>invalidate\<close> when the flag is set. The promise returned is the one the caller
  awaits.
\<close>

definition WorkerStore_apply ::
  "Pointer operation list \<Rightarrow> bool option \<Rightarrow> WorkerStore \<Rightarrow> nat \<times> WorkerStore" where
  "WorkerStore_apply operations invalidate ws =
     (case WorkerStore_getResult ws of
        (result, ws') \<Rightarrow>
          (let payload = map (map_operation Pointer_path) operations;
               ws'' = ws'\<lparr>ws_posted := ws_posted ws' @
                        [\<lparr>msg_id = ws_messageId ws', msg_type = ''apply'',
                          msg_payload = PayloadOperations payload\<rparr>]\<rparr>
           in (result,
               ws''\<lparr>ws_waiters := (ws_waiters ws'')[result := (ws_waiters ws'' ! result)
                        \<lparr>then_invalidate := (case invalidate of None \<Rightarrow> False | Some b \<Rightarrow> b)\<rparr>]\<rparr>)))"

text \<open>
  \<open>apply\<close> of the revision in \<open>src/stores/Store.ts\<close>: \<open>Promise.resolve({})\<close>, a promise
  already settled with the empty object.
\<close>

definition WorkerStore_apply_stub ::
  "Pointer operation list \<Rightarrow> bool option \<Rightarrow> WorkerStore \<Rightarrow> nat \<times> WorkerStore" where
  "WorkerStore_apply_stub operations invalidate ws =
     (length (ws_waiters ws),
      ws\<lparr>ws_waiters := ws_waiters ws @ [\<lparr>then_invalidate = False, settled = Some (JObj Map.empty)\<rparr>]\<rparr>)"

text \<open>\<open>path\<close> of the proxying revision.\<close>

definition WorkerStore_path :: "string + (json, json) Path \<Rightarrow> string option list \<Rightarrow> (json, json) Path" where
  "WorkerStore_path p segs =
     (let pointer = path_pointer p segs
      in \<lparr>path = Pointer_path pointer, state = JObj Map.empty, value' = JArr []\<rparr>)"

text \<open>
  The calls that reach a worker store of the proxying revision: \<open>get\<close> and \<open>apply\<close> from
  the application, and a message from the worker.
\<close>

datatype worker_call =
    Get "(json, json) Path"
  | ApplyOps "Pointer operation list" "bool option"
  | Message response

fun WorkerStore_call :: "worker_call \<Rightarrow> WorkerStore \<Rightarrow> WorkerStore" where
  "WorkerStore_call (Get p) ws = snd (WorkerStore_get p ws)"
| "WorkerStore_call (ApplyOps operations invalidate) ws = snd (WorkerStore_apply operations invalidate ws)"
| "WorkerStore_call (Message data) ws = WorkerStore_onmessage data ws"

definition WorkerStore_calls :: "worker_call list \<Rightarrow> WorkerStore \<Rightarrow> WorkerStore" where
  "WorkerStore_calls cs ws = fold WorkerStore_call cs ws"

text \<open>
  \<open>entries_pending ws\<close>: every entry of \<open>_messageQueue\<close> is the \<open>resolve\<close> function of a
  promise that is still pending, and no two identifiers share a promise.
\<close>

definition entries_pending :: "WorkerStore \<Rightarrow> bool" where
  "entries_pending ws =
     (\<forall>mid p. ws_messageQueue ws mid = Some p \<longrightarrow>
        p < length (ws_waiters ws) \<and> settled (ws_waiters ws ! p) = None \<and>
        (\<forall>mid'. ws_messageQueue ws mid' = Some p \<longrightarrow> mid' = mid))"

section \<open>Example inputs\<close>

text \<open>The root \<open>{a: {b: 1, c: 2}, l: [1, 2]}\<close> and a batch of four operations on it.\<close>

definition doc_abc :: json where
  "doc_abc =
     JObj [''a'' \<mapsto> JObj [''b'' \<mapsto> JNum 1, ''c'' \<mapsto> JNum 2], ''l'' \<mapsto> JArr [JNum 1, JNum 2]]"

definition batch_abc :: "Pointer operation list" where
  "batch_abc =
     [Replace \<lparr>segments = [''a'', ''b'']\<rparr> (JNum 9),
      Add \<lparr>segments = [''l'', ''2'']\<rparr> (JNum 3),
      Add \<lparr>segments = [''a'', ''c'']\<rparr> (JNum 7),
      Remove \<lparr>segments = [''l'', ''0'']\<rparr>]"

section \<open>Predicates on stores\<close>

text \<open>
  The registrations of a table: the pairs of an address and a callback item filed under
  it.
\<close>

definition regs_of :: "(string \<times> ('v, 'cb) OnChangeValue) list \<Rightarrow> (string \<times> 'cb OnChangeCallback) set" where
  "regs_of al = {(k, c). \<exists>v. (k, v) \<in> set al \<and> c \<in> set (callbacks v)}"

text \<open>
  The test \<open>previousValue !== newValue\<close> of \<open>_runOnChanges\<close> for one entry, against the root
  \<open>st\<close>.
\<close>

definition changed :: "(Pointer \<Rightarrow> 'st \<Rightarrow> 'v) \<Rightarrow> 'st \<Rightarrow> string \<times> ('v, 'cb) OnChangeValue \<Rightarrow> bool" where
  "changed pg st e = (previousValue (snd e) \<noteq> pg (Pointer_new (Inl (fst e))) st)"

definition all_callbacks :: "('st, 'v, 'cb) Store \<Rightarrow> 'cb OnChangeCallback list" where
  "all_callbacks s = concat (map (\<lambda>e. callbacks (snd e)) (store_changePaths s))"

text \<open>
  A store is well formed when the keys of its table are distinct (it is a \<open>Map\<close>), every
  subscriber id in the table is below \<open>_callbackId\<close>, and a subscriber id stands for one
  callback. Every store reached from a new one by calls is well formed.
\<close>

definition well_formed :: "('st, 'v, 'cb) Store \<Rightarrow> bool" where
  "well_formed s =
     (distinct (map fst (store_changePaths s)) \<and>
      list_all (\<lambda>c. callbackId c < store_callbackId s) (all_callbacks s) \<and>
      list_all (\<lambda>c. list_all (\<lambda>d. callbackId d = callbackId c \<longrightarrow> callback d = callback c)
                  (all_callbacks s)) (all_callbacks s))"

text \<open>
  \<open>table_shrinks s s'\<close>: from \<open>s\<close> to \<open>s'\<close> no registration was added and \<open>_callbackId\<close>
  stayed.
\<close>

definition table_shrinks :: "('st, 'v, 'cb) Store \<Rightarrow> ('st, 'v, 'cb) Store \<Rightarrow> bool" where
  "table_shrinks s s' =
     (regs_of (store_changePaths s') \<subseteq> regs_of (store_changePaths s) \<and>
      store_callbackId s' = store_callbackId s \<and>
      (distinct (map fst (store_changePaths s)) \<longrightarrow> distinct (map fst (store_changePaths s'))))"

text \<open>
  \<open>unsubscribed i s\<close>: the subscriber id \<open>i\<close> has been handed out and stands nowhere in
  the table. \<open>subscribed_within i K s\<close>: it has been handed out and stands only under addresses
  of \<open>K\<close>. \<open>filtered_at i k s\<close>: the entry of address \<open>k\<close>, if any, holds no callback of
  subscriber \<open>i\<close>.
\<close>

definition unsubscribed :: "nat \<Rightarrow> ('st, 'v, 'cb) Store \<Rightarrow> bool" where
  "unsubscribed i s =
     (i < store_callbackId s \<and> (\<forall>x \<in> regs_of (store_changePaths s). callbackId (snd x) \<noteq> i))"

definition subscribed_within :: "nat \<Rightarrow> string set \<Rightarrow> ('st, 'v, 'cb) Store \<Rightarrow> bool" where
  "subscribed_within i K s =
     (distinct (map fst (store_changePaths s)) \<and> i < store_callbackId s \<and>
      (\<forall>x \<in> regs_of (store_changePaths s). callbackId (snd x) = i \<longrightarrow> fst x \<in> K))"

definition filtered_at :: "nat \<Rightarrow> string \<Rightarrow> ('st, 'v, 'cb) Store \<Rightarrow> bool" where
  "filtered_at i k s =
     (case map_of (store_changePaths s) k of
        None \<Rightarrow> True
      | Some e \<Rightarrow> filter (\<lambda>c. callbackId c \<noteq> i) (callbacks e) = callbacks e)"

text \<open>
  The entry of address \<open>k\<close> after \<open>onChange\<close> has registered \<open>cb\<close> under id \<open>i\<close> on the
  paths \<open>ps\<close>, from the entry \<open>before\<close>: if no path of \<open>ps\<close> has the address \<open>k\<close> the entry
  is as before; otherwise it holds the callbacks it held, then one item for each such path,
  and its baseline is the one it had, or for a new entry the value of the first such path.
\<close>

definition registered_entry ::
  "('st, 'v) Path list \<Rightarrow> 'cb \<Rightarrow> nat \<Rightarrow> ('v, 'cb) OnChangeValue option \<Rightarrow> string \<Rightarrow>
     ('v, 'cb) OnChangeValue option" where
  "registered_entry ps cb i before k =
     (case filter (\<lambda>q. path q = k) ps of
        [] \<Rightarrow> before
      | q # qs \<Rightarrow>
          Some \<lparr>callbacks =
                  (case before of None \<Rightarrow> [] | Some e \<Rightarrow> callbacks e) @
                  replicate (length (q # qs)) \<lparr>callbackId = i, callback = cb\<rparr>,
                previousValue =
                  (case before of None \<Rightarrow> value' q | Some e \<Rightarrow> previousValue e)\<rparr>)"

section \<open>More example inputs\<close>

text \<open>
  A path built by \<open>path(k)\<close> on a new store over deep values. \<open>two_paths_store\<close> is a
  store on which \<open>render\<close> was subscribed to \<open>/a\<close> and \<open>/b\<close> while they were absent, and
  whose root was then patched, without invalidation, to \<open>{a: 1, b: 2}\<close>. The addresses
  of these examples resolve to scalars or to Undefined, on which \<open>===\<close> is equality of
  deep values.
\<close>

definition sub_path :: "string \<Rightarrow> (json, json option) Path" where
  "sub_path k = Store_path Pointer_get (Inl k) [] (Store_new (JObj Map.empty) :: (json, json option, string) Store)"

definition two_paths_store :: "(json, json option, string) Store" where
  "two_paths_store =
     store_of (Store_apply Patch_apply Pointer_get
       [Add \<lparr>segments = [''a'']\<rparr> (JNum 1), Add \<lparr>segments = [''b'']\<rparr> (JNum 2)] None
       (snd (Store_onChange (Inr [sub_path ''a'', sub_path ''b'']) ''render'' (Store_new (JObj Map.empty)))))"

text \<open>
  A store over runtime values. The heap holds the root object \<open>{a: #2}\<close> and two distinct
  objects \<open>#1\<close> and \<open>#2\<close>, both \<open>{x: 1}\<close>; the baseline recorded for \<open>/a\<close> is the
  reference \<open>#1\<close>.
\<close>

definition twin_state :: jsstate where
  "twin_state =
     \<lparr>heap = [0 \<mapsto> OObj [''a'' \<mapsto> VRef 2], 1 \<mapsto> OObj [''x'' \<mapsto> VNum 1], 2 \<mapsto> OObj [''x'' \<mapsto> VNum 1]],
      root = VRef 0\<rparr>"

definition twin_store :: "(jsstate, jsval, string) Store" where
  "twin_store =
     \<lparr>store_state = twin_state,
      store_changePaths =
        [(''/a'', \<lparr>callbacks = [\<lparr>callbackId = 0, callback = ''render''\<rparr>], previousValue = VRef 1\<rparr>)],
      store_callbackId = 1\<rparr>"

section \<open>Array indices of the example segments\<close>

lemma array_index_examples [simp]:
  "array_index ''a'' = None" "array_index ''b'' = None" "array_index ''c'' = None"
  "array_index ''l'' = None" "array_index ''x'' = None"
  "array_index ''0'' = Some 0" "array_index ''1'' = Some 1" "array_index ''2'' = Some 2"
  by (simp_all add: array_index_def is_digit_def)

section \<open>Undoing one operation of the patch engine\<close>

lemma child_set_child: "child node k = Some c \<Longrightarrow> child (set_child node k c') k = Some c'"
  by (cases node) (auto split: option.splits if_splits)

lemma set_child_back: "child node k = Some c \<Longrightarrow> set_child (set_child node k c') k c = node"
  by (cases node) (auto split: option.splits if_splits simp: map_upd_triv)

lemma replace_at_undo:
  "replace_at ks v node = Some (node', old) \<Longrightarrow> replace_at ks old node' = Some (node, v)"
proof (induction ks v node arbitrary: node' rule: replace_at.induct)
  case (1 v node)
  then show ?case by simp
next
  case (2 k v node)
  then show ?case
    by (auto split: option.splits simp: child_set_child set_child_back)
next
  case (3 k k' ks v node)
  then show ?case
    by (auto split: option.splits simp: child_set_child set_child_back)
qed

lemma insert_after_delete:
  "child node k = Some old \<Longrightarrow> insert_child (delete_child node k) k old = Some node"
  by (cases node)
    (auto split: option.splits if_splits simp: map_upd_triv id_take_nth_drop [symmetric] min_def)

lemma overwritten_delete: "overwritten (delete_child node k) k = None"
  by (cases node) (auto split: option.splits)

lemma remove_at_undo:
  "remove_at ks node = Some (node', old) \<Longrightarrow> add_at ks old node' = Some (node, None)"
proof (induction ks node arbitrary: node' rule: remove_at.induct)
  case (1 node)
  then show ?case by simp
next
  case (2 k node)
  then show ?case
    by (auto split: option.splits simp: insert_after_delete overwritten_delete)
next
  case (3 k k' ks node)
  then show ?case
    by (auto split: option.splits simp: child_set_child set_child_back)
qed

lemma child_after_insert: "insert_child node k v = Some node' \<Longrightarrow> child node' k = Some v"
  by (cases node) (auto split: option.splits if_splits simp: nth_append)

lemma delete_after_insert:
  "insert_child node k v = Some node' \<Longrightarrow> overwritten node k = None \<Longrightarrow>
     delete_child node' k = node"
  by (cases node) (auto split: option.splits if_splits simp: min_def fun_upd_idem)

lemma set_after_insert:
  "insert_child node k v = Some node' \<Longrightarrow> overwritten node k = Some old \<Longrightarrow>
     set_child node' k old = node"
  by (cases node) (auto split: option.splits if_splits simp: map_upd_triv)

lemma resolve_butlast_step:
  "resolve (butlast (k # k' # ks)) node \<noteq> None \<Longrightarrow>
     \<exists>c. child node k = Some c \<and> resolve (butlast (k' # ks)) c \<noteq> None"
  by (cases "child node k") auto

lemma add_at_undo_remove:
  "add_at ks v node = Some (node', None) \<Longrightarrow> resolve (butlast ks) node \<noteq> None \<Longrightarrow>
     remove_at ks node' = Some (node, v)"
proof (induction ks v node arbitrary: node' rule: add_at.induct)
  case (1 v node)
  then show ?case by simp
next
  case (2 k v node)
  then show ?case
    by (auto split: option.splits simp: child_after_insert delete_after_insert)
next
  case (3 k k' ks v node)
  from "3.prems"(2) obtain c
    where c: "child node k = Some c" "resolve (butlast (k' # ks)) c \<noteq> None"
    using resolve_butlast_step by blast
  with "3.prems"(1) obtain c'
    where c': "add_at (k' # ks) v c = Some (c', None)" "node' = set_child node k c'"
    by (auto split: option.splits)
  from "3.IH"(2) [OF c(1) c'(1) c(2)] have "remove_at (k' # ks) c' = Some (c, v)" .
  with c c' show ?case
    by (simp add: child_set_child set_child_back)
qed

lemma add_at_undo_replace:
  "add_at ks v node = Some (node', Some old) \<Longrightarrow> resolve (butlast ks) node \<noteq> None \<Longrightarrow>
     replace_at ks old node' = Some (node, v)"
proof (induction ks v node arbitrary: node' rule: add_at.induct)
  case (1 v node)
  then show ?case by simp
next
  case (2 k v node)
  then show ?case
    by (auto split: option.splits simp: child_after_insert set_after_insert)
next
  case (3 k k' ks v node)
  from "3.prems"(2) obtain c
    where c: "child node k = Some c" "resolve (butlast (k' # ks)) c \<noteq> None"
    using resolve_butlast_step by blast
  with "3.prems"(1) obtain c'
    where c': "add_at (k' # ks) v c = Some (c', Some old)" "node' = set_child node k c'"
    by (auto split: option.splits)
  from "3.IH"(2) [OF c(1) c'(1) c(2)] have "replace_at (k' # ks) old c' = Some (c, v)" .
  with c c' show ?case
    by (simp add: child_set_child set_child_back)
qed

lemma apply_operation_undo:
  assumes "parent_resolves operation r" and "apply_operation operation r = (r', u)"
  shows "fst (patch_loop u r' acc) = r"
proof (cases operation)
  case (Add p v)
  show ?thesis
  proof (cases "add_at (segments p) v r")
    case None
    with Add assms show ?thesis by simp
  next
    case (Some res)
    obtain n prev where res: "res = (n, prev)" by (cases res)
    show ?thesis
    proof (cases prev)
      case None
      with Some res Add assms have "remove_at (segments p) r' = Some (r, v)" "u = [Remove p]"
        by (auto dest: add_at_undo_remove)
      then show ?thesis by simp
    next
      case (Some old)
      with \<open>add_at (segments p) v r = Some res\<close> res Add assms
      have "replace_at (segments p) old r' = Some (r, v)" "u = [Replace p old]"
        by (auto dest: add_at_undo_replace)
      then show ?thesis by simp
    qed
  qed
next
  case (Replace p v)
  with assms show ?thesis
    by (auto split: option.splits dest: replace_at_undo)
next
  case (Remove p)
  with assms show ?thesis
    by (auto split: option.splits dest: remove_at_undo)
qed

section \<open>Undoing a batch\<close>

lemma patch_loop_acc:
  "patch_loop ops r acc = (fst (patch_loop ops r []), snd (patch_loop ops r []) @ acc)"
proof (induction ops arbitrary: r acc)
  case Nil
  then show ?case by simp
next
  case (Cons a ops)
  obtain r' u where a: "apply_operation a r = (r', u)" by (cases "apply_operation a r")
  have "patch_loop (a # ops) r acc = patch_loop ops r' (u @ acc)" using a by simp
  also have "\<dots> = (fst (patch_loop ops r' []), snd (patch_loop ops r' []) @ u @ acc)"
    using Cons.IH [of r' "u @ acc"] by simp
  also have "\<dots> = (fst (patch_loop (a # ops) r []), snd (patch_loop (a # ops) r []) @ acc)"
    using a Cons.IH [of r' "u"] by simp
  finally show ?case .
qed

lemma patch_loop_append:
  "fst (patch_loop (xs @ ys) r acc) = fst (patch_loop ys (fst (patch_loop xs r acc)) acc')"
proof (induction xs arbitrary: r acc)
  case Nil
  show ?case using patch_loop_acc [of ys r acc] patch_loop_acc [of ys r acc'] by simp
next
  case (Cons a xs)
  then show ?case by (simp split: prod.splits)
qed

lemma patch_loop_undo:
  "adds_into_existing ops r \<Longrightarrow>
     fst (patch_loop (snd (patch_loop ops r [])) (fst (patch_loop ops r [])) []) = r"
proof (induction ops arbitrary: r)
  case Nil
  then show ?case by simp
next
  case (Cons a ops)
  obtain r1 u1 where a: "apply_operation a r = (r1, u1)" by (cases "apply_operation a r")
  let ?r2 = "fst (patch_loop ops r1 [])" and ?u2 = "snd (patch_loop ops r1 [])"
  from Cons.prems a have pr: "parent_resolves a r" and rest: "adds_into_existing ops r1"
    by simp_all
  have loop: "patch_loop (a # ops) r [] = (?r2, ?u2 @ u1)"
    using a patch_loop_acc [of ops r1 "u1"] by simp
  have "fst (patch_loop (?u2 @ u1) ?r2 []) = fst (patch_loop u1 (fst (patch_loop ?u2 ?r2 [])) [])"
    by (rule patch_loop_append)
  also have "\<dots> = fst (patch_loop u1 r1 [])" using Cons.IH [OF rest] by simp
  also have "\<dots> = r" using apply_operation_undo [OF pr a] .
  finally show ?case using loop by simp
qed

section \<open>The root of a store\<close>

lemma changePaths_forEach_state:
  "store_state (fst (changePaths_forEach pg es acc)) = store_state (fst acc)"
proof (induction es arbitrary: acc)
  case Nil
  then show ?case by simp
next
  case (Cons e es)
  obtain p v where e: "e = (p, v)" by (cases e)
  obtain s c f where acc: "acc = (s, c, f)" by (cases acc)
  show ?case unfolding e acc
    by (simp add: Let_def Cons.IH case_prod_beta)
qed

lemma Store_invalidate_state: "store_state (fst (Store_invalidate pg s)) = store_state s"
  using changePaths_forEach_state [of pg "store_changePaths s" "(s, [], [])"]
  by (simp add: Store_invalidate_def Store_runOnChanges_def case_prod_beta)

lemma Store_apply_state:
  "store_state (store_of (Store_apply pa pg ops iv s)) = object (pa ops (store_state s))"
  using Store_invalidate_state [of pg "s\<lparr>store_state := object (pa ops (store_state s))\<rparr>"]
  by (simp add: Store_apply_def store_of_def Let_def case_prod_beta split: option.splits)

lemma Store_apply_undo:
  "undo_of (Store_apply pa pg ops iv s) = undoOperations (pa ops (store_state s))"
  by (simp add: Store_apply_def undo_of_def Let_def case_prod_beta split: option.splits)

section \<open>The loops of \<open>_runOnChanges\<close>\<close>

lemma set_update_subset: "set (AList.update k e al) \<subseteq> set al \<union> {(k, e)}"
  by (induction al) auto

lemma regs_of_update: "regs_of (AList.update k e al) \<subseteq> regs_of al \<union> Pair k ` set (callbacks e)"
  using set_update_subset [of k e al] unfolding regs_of_def by fastforce

lemma regs_of_Cons: "regs_of ((p, v) # rest) = {(p, c) | c. c \<in> set (callbacks v)} \<union> regs_of rest"
  unfolding regs_of_def by auto

lemma regs_ofI: "(k, v) \<in> set al \<Longrightarrow> c \<in> set (callbacks v) \<Longrightarrow> (k, c) \<in> regs_of al"
  unfolding regs_of_def by blast

lemma callbacks_forEach_inv:
  "callbacks_forEach items (called, fired) = (called', fired') \<Longrightarrow>
   called = map callbackId fired \<and> distinct called \<Longrightarrow>
   called' = map callbackId fired' \<and> distinct called'"
proof (induction items arbitrary: called fired)
  case Nil
  then show ?case by auto
next
  case (Cons a items)
  show ?case
  proof (cases "callbackId a \<in> set called")
    case True
    with Cons.prems(1) have "callbacks_forEach items (called, fired) = (called', fired')" by simp
    from Cons.IH [OF this Cons.prems(2)] show ?thesis .
  next
    case False
    with Cons.prems(1) have 1: "callbacks_forEach items (called @ [callbackId a], fired @ [a]) = (called', fired')"
      by simp
    have 2: "called @ [callbackId a] = map callbackId (fired @ [a]) \<and> distinct (called @ [callbackId a])"
      using Cons.prems(2) False by auto
    from Cons.IH [OF 1 2] show ?thesis .
  qed
qed

lemma callbacks_forEach_sets:
  assumes "callbacks_forEach items (called, fired) = (called', fired')"
  shows "set fired' \<subseteq> set fired \<union> set items \<and> set called \<subseteq> set called' \<and>
         callbackId ` set items \<subseteq> set called'"
  using assms
proof (induction items arbitrary: called fired)
  case Nil
  then show ?case by simp
next
  case (Cons a items)
  show ?case
  proof (cases "callbackId a \<in> set called")
    case True
    with Cons.prems have "callbacks_forEach items (called, fired) = (called', fired')" by simp
    from Cons.IH [OF this] True show ?thesis by auto
  next
    case False
    with Cons.prems have "callbacks_forEach items (called @ [callbackId a], fired @ [a]) = (called', fired')" by simp
    from Cons.IH [OF this] show ?thesis by auto
  qed
qed

lemma changePaths_forEach_Cons:
  "changePaths_forEach pg ((p, v) # rest) (s, called, fired) =
     (if changed pg (store_state s) (p, v)
      then changePaths_forEach pg rest
             (s\<lparr>store_changePaths := AList.update p \<lparr>callbacks = callbacks v,
                   previousValue = pg (Pointer_new (Inl p)) (store_state s)\<rparr> (store_changePaths s)\<rparr>,
              fst (callbacks_forEach (callbacks v) (called, fired)),
              snd (callbacks_forEach (callbacks v) (called, fired)))
      else changePaths_forEach pg rest (s, called, fired))"
  by (simp add: changed_def Let_def case_prod_beta)

lemma changePaths_forEach_induct [consumes 1, case_names Nil Unchanged Changed]:
  assumes run: "changePaths_forEach pg es (s, called, fired) = (s', called', fired')"
    and nil: "\<And>s called fired. P [] s called fired s called fired"
    and unchanged: "\<And>p v rest s called fired s' called' fired'.
        \<not> changed pg (store_state s) (p, v) \<Longrightarrow>
        changePaths_forEach pg rest (s, called, fired) = (s', called', fired') \<Longrightarrow>
        P rest s called fired s' called' fired' \<Longrightarrow>
        P ((p, v) # rest) s called fired s' called' fired'"
    and changed: "\<And>p v rest s called fired s1 called1 fired1 s' called' fired'.
        changed pg (store_state s) (p, v) \<Longrightarrow>
        s1 = s\<lparr>store_changePaths := AList.update p \<lparr>callbacks = callbacks v,
                   previousValue = pg (Pointer_new (Inl p)) (store_state s)\<rparr> (store_changePaths s)\<rparr> \<Longrightarrow>
        callbacks_forEach (callbacks v) (called, fired) = (called1, fired1) \<Longrightarrow>
        changePaths_forEach pg rest (s1, called1, fired1) = (s', called', fired') \<Longrightarrow>
        P rest s1 called1 fired1 s' called' fired' \<Longrightarrow>
        P ((p, v) # rest) s called fired s' called' fired'"
  shows "P es s called fired s' called' fired'"
  using run
proof (induction es arbitrary: s called fired)
  case Nil
  then show ?case using nil by simp
next
  case (Cons e es)
  obtain p v where e: "e = (p, v)" by (cases e)
  show ?case
  proof (cases "changed pg (store_state s) (p, v)")
    case True
    obtain called1 fired1 where cf: "callbacks_forEach (callbacks v) (called, fired) = (called1, fired1)"
      by (cases "callbacks_forEach (callbacks v) (called, fired)")
    let ?s1 = "s\<lparr>store_changePaths := AList.update p \<lparr>callbacks = callbacks v,
                   previousValue = pg (Pointer_new (Inl p)) (store_state s)\<rparr> (store_changePaths s)\<rparr>"
    from Cons.prems True cf have run': "changePaths_forEach pg es (?s1, called1, fired1) = (s', called', fired')"
      unfolding e changePaths_forEach_Cons by simp
    show ?thesis unfolding e
      by (rule changed [OF True refl cf run' Cons.IH [OF run']])
  next
    case False
    with Cons.prems have run': "changePaths_forEach pg es (s, called, fired) = (s', called', fired')"
      unfolding e changePaths_forEach_Cons by simp
    show ?thesis unfolding e
      by (rule unchanged [OF False run' Cons.IH [OF run']])
  qed
qed

lemma changePaths_forEach_inv:
  assumes "changePaths_forEach pg es (s, called, fired) = (s', called', fired')"
  shows "called = map callbackId fired \<and> distinct called \<Longrightarrow>
         called' = map callbackId fired' \<and> distinct called'"
  using assms
proof (induction rule: changePaths_forEach_induct)
  case (Nil s called fired)
  then show ?case by auto
next
  case (Unchanged p v rest s called fired s' called' fired')
  then show ?case by blast
next
  case (Changed p v rest s called fired s1 called1 fired1 s' called' fired')
  from callbacks_forEach_inv [OF Changed(3) Changed(6)] Changed(5) show ?case by blast
qed

lemma changePaths_forEach_state':
  assumes "changePaths_forEach pg es (s, called, fired) = (s', called', fired')"
  shows "store_state s' = store_state s \<and> store_callbackId s' = store_callbackId s"
  using assms
  by (induction rule: changePaths_forEach_induct) auto

lemma changePaths_forEach_fired:
  assumes "changePaths_forEach pg es (s, called, fired) = (s', called', fired')"
  shows "set fired' \<subseteq> set fired \<union> snd ` regs_of es"
  using assms
proof (induction rule: changePaths_forEach_induct)
  case (Nil s called fired)
  then show ?case by simp
next
  case (Unchanged p v rest s called fired s' called' fired')
  then show ?case by (auto simp: regs_of_Cons)
next
  case (Changed p v rest s called fired s1 called1 fired1 s' called' fired')
  from callbacks_forEach_sets [OF Changed(3)]
  have 1: "set fired1 \<subseteq> set fired \<union> set (callbacks v)" by auto
  have 2: "snd ` regs_of ((p, v) # rest) = set (callbacks v) \<union> snd ` regs_of rest"
    by (force simp: regs_of_Cons)
  from 1 Changed(5) show ?case unfolding 2 by blast
qed

lemma changePaths_forEach_called:
  assumes "changePaths_forEach pg es (s, called, fired) = (s', called', fired')"
  shows "set called \<subseteq> set called'"
  using assms
proof (induction rule: changePaths_forEach_induct)
  case (Nil s called fired)
  then show ?case by simp
next
  case (Unchanged p v rest s called fired s' called' fired')
  then show ?case by simp
next
  case (Changed p v rest s called fired s1 called1 fired1 s' called' fired')
  from callbacks_forEach_sets [OF Changed(3)] Changed(5) show ?case by blast
qed

lemma changePaths_forEach_cover:
  assumes "changePaths_forEach pg es (s, called, fired) = (s', called', fired')"
  shows "e \<in> set es \<Longrightarrow> changed pg (store_state s) e \<Longrightarrow> c \<in> set (callbacks (snd e)) \<Longrightarrow>
         callbackId c \<in> set called'"
  using assms
proof (induction rule: changePaths_forEach_induct)
  case (Nil s called fired)
  then show ?case by simp
next
  case (Unchanged p v rest s called fired s' called' fired')
  then show ?case by auto
next
  case (Changed p v rest s called fired s1 called1 fired1 s' called' fired')
  have st: "store_state s1 = store_state s" using Changed(2) by simp
  show ?case
  proof (cases "e = (p, v)")
    case True
    with Changed(8) have "callbackId c \<in> callbackId ` set (callbacks v)" by simp
    with callbacks_forEach_sets [OF Changed(3)] have "callbackId c \<in> set called1" by blast
    with changePaths_forEach_called [OF Changed(4)] show ?thesis by blast
  next
    case False
    with Changed(6) have "e \<in> set rest" by simp
    from Changed(5) [OF this] Changed(7) Changed(8) st show ?thesis by simp
  qed
qed

section \<open>Callbacks called by one invalidation\<close>

lemma set_all_callbacks: "set (all_callbacks s) = snd ` regs_of (store_changePaths s)"
  unfolding all_callbacks_def regs_of_def by force

lemma calls_of_fired:
  "calls_of i (map Called fired @ [Emitted t]) = map callback (filter (\<lambda>c. callbackId c = i) fired)"
  by (induction fired) auto

lemma emitted_fired: "emitted (map Called fired @ [Emitted t]) = [t]"
  by (induction fired) auto

lemma distinct_map_filter_le1:
  "distinct (map f xs) \<Longrightarrow> length (filter (\<lambda>x. f x = i) xs) \<le> 1"
proof (induction xs)
  case Nil
  then show ?case by simp
next
  case (Cons a xs)
  show ?case
  proof (cases "f a = i")
    case True
    have "f x \<noteq> i" if "x \<in> set xs" for x
      using that Cons.prems True by (metis distinct.simps(2) image_eqI list.simps(9) set_map)
    then have "filter (\<lambda>x. f x = i) xs = []"
      by (simp add: filter_empty_conv)
    with True show ?thesis by simp
  next
    case False
    with Cons show ?thesis by simp
  qed
qed

lemma Store_runOnChanges_run:
  obtains s' called' fired' where
    "changePaths_forEach pg (store_changePaths s) (s, [], []) = (s', called', fired')"
    "Store_runOnChanges pg s = (s', fired')"
    "Store_invalidate pg s = (s', map Called fired' @ [Emitted ''invalidate''])"
proof -
  obtain s' called' fired' where
    r: "changePaths_forEach pg (store_changePaths s) (s, [], []) = (s', called', fired')"
    by (cases "changePaths_forEach pg (store_changePaths s) (s, [], [])")
  then show ?thesis
    using that [of s' called' fired']
    by (simp add: Store_runOnChanges_def Store_invalidate_def)
qed

lemma invalidate_at_most_once:
  "length (calls_of i (snd (Store_invalidate pg s))) \<le> 1"
proof -
  obtain s' called' fired' where
    run: "changePaths_forEach pg (store_changePaths s) (s, [], []) = (s', called', fired')"
    and inv: "Store_invalidate pg s = (s', map Called fired' @ [Emitted ''invalidate''])"
    by (rule Store_runOnChanges_run)
  have "called' = map callbackId fired' \<and> distinct called'"
    by (rule changePaths_forEach_inv [OF run]) simp
  then have "distinct (map callbackId fired')" by (elim conjE) (erule subst)
  from distinct_map_filter_le1 [OF this, of i] show ?thesis
    unfolding inv by (simp add: calls_of_fired)
qed

lemma all_callbacksI:
  "(k, v) \<in> set (store_changePaths s) \<Longrightarrow> c \<in> set (callbacks v) \<Longrightarrow> c \<in> set (all_callbacks s)"
  unfolding set_all_callbacks using regs_ofI by force

lemma well_formed_same_id:
  "well_formed s \<Longrightarrow> c \<in> set (all_callbacks s) \<Longrightarrow> d \<in> set (all_callbacks s) \<Longrightarrow>
     callbackId d = callbackId c \<Longrightarrow> callback d = callback c"
  unfolding well_formed_def list_all_iff by blast

lemma invalidate_fires_changed:
  assumes wf: "well_formed s"
    and e: "(p, v) \<in> set (store_changePaths s)"
    and ch: "previousValue v \<noteq> pg (Pointer_new (Inl p)) (store_state s)"
    and c: "c \<in> set (callbacks v)"
  shows "calls_of (callbackId c) (snd (Store_invalidate pg s)) = [callback c]"
proof -
  obtain s' called' fired' where
    run: "changePaths_forEach pg (store_changePaths s) (s, [], []) = (s', called', fired')"
    and inv: "Store_invalidate pg s = (s', map Called fired' @ [Emitted ''invalidate''])"
    by (rule Store_runOnChanges_run)
  let ?F = "filter (\<lambda>d. callbackId d = callbackId c) fired'"
  have ci: "called' = map callbackId fired' \<and> distinct called'"
    by (rule changePaths_forEach_inv [OF run]) simp
  then have called: "called' = map callbackId fired'" by (rule conjunct1)
  from ci have dist: "distinct (map callbackId fired')" by (elim conjE) (erule subst)
  have "changed pg (store_state s) (p, v)" using ch by (simp add: changed_def)
  from changePaths_forEach_cover [OF run e this] c have "callbackId c \<in> set called'" by simp
  then have "callbackId c \<in> callbackId ` set fired'" unfolding called by simp
  then obtain d0 where "d0 \<in> set fired'" "callbackId d0 = callbackId c" by force
  then have "d0 \<in> set ?F" by simp
  then have ne: "?F \<noteq> []" by force
  from distinct_map_filter_le1 [OF dist, of "callbackId c"] have le: "length ?F \<le> 1" .
  obtain d where F: "?F = [d]"
  proof (cases ?F)
    case Nil
    with ne show ?thesis by simp
  next
    case (Cons d ds)
    with le have "ds = []" by simp
    with Cons that show ?thesis by simp
  qed
  then have "d \<in> set ?F" by simp
  then have d: "d \<in> set fired'" "callbackId d = callbackId c" by simp_all
  from changePaths_forEach_fired [OF run] d(1) have dall: "d \<in> set (all_callbacks s)"
    unfolding set_all_callbacks by auto
  have call: "c \<in> set (all_callbacks s)" by (rule all_callbacksI [OF e c])
  have "callback d = callback c" by (rule well_formed_same_id [OF wf call dall d(2)])
  with F show ?thesis unfolding inv by (simp add: calls_of_fired)
qed

text \<open>
  Only callbacks of entries whose value changed are called: a subscriber id that stands
  under no changed address gets no call.
\<close>

lemma changePaths_forEach_fired_changed:
  assumes "changePaths_forEach pg es (s, called, fired) = (s', called', fired')"
  shows "set fired' \<subseteq> set fired \<union>
           {c. \<exists>e \<in> set es. changed pg (store_state s) e \<and> c \<in> set (callbacks (snd e))}"
  using assms
proof (induction rule: changePaths_forEach_induct)
  case (Nil s called fired)
  then show ?case by simp
next
  case (Unchanged p v rest s called fired s' called' fired')
  then show ?case by auto
next
  case (Changed p v rest s called fired s1 called1 fired1 s' called' fired')
  have st: "store_state s1 = store_state s" using Changed(2) by simp
  from callbacks_forEach_sets [OF Changed(3)]
  have 1: "set fired1 \<subseteq> set fired \<union> set (callbacks v)" by auto
  show ?case
  proof
    fix c assume "c \<in> set fired'"
    with Changed(5) have "c \<in> set fired1 \<or>
        (\<exists>e \<in> set rest. changed pg (store_state s1) e \<and> c \<in> set (callbacks (snd e)))" by blast
    then show "c \<in> set fired \<union>
           {c. \<exists>e \<in> set ((p, v) # rest). changed pg (store_state s) e \<and> c \<in> set (callbacks (snd e))}"
    proof
      assume "c \<in> set fired1"
      with 1 have "c \<in> set fired \<or> c \<in> set (callbacks v)" by blast
      with Changed(1) show ?thesis by auto
    next
      assume "\<exists>e \<in> set rest. changed pg (store_state s1) e \<and> c \<in> set (callbacks (snd e))"
      then show ?thesis unfolding st by auto
    qed
  qed
qed

lemma invalidate_silent_unchanged:
  assumes "\<And>e d. e \<in> set (store_changePaths s) \<Longrightarrow>
             previousValue (snd e) \<noteq> pg (Pointer_new (Inl (fst e))) (store_state s) \<Longrightarrow>
             d \<in> set (callbacks (snd e)) \<Longrightarrow> callbackId d \<noteq> i"
  shows "calls_of i (snd (Store_invalidate pg s)) = []"
proof -
  obtain s' called' fired' where
    run: "changePaths_forEach pg (store_changePaths s) (s, [], []) = (s', called', fired')"
    and inv: "Store_invalidate pg s = (s', map Called fired' @ [Emitted ''invalidate''])"
    by (rule Store_runOnChanges_run)
  have "callbackId d \<noteq> i" if "d \<in> set fired'" for d
  proof -
    from changePaths_forEach_fired_changed [OF run] that
    obtain e where "e \<in> set (store_changePaths s)" "changed pg (store_state s) e"
      "d \<in> set (callbacks (snd e))" by auto
    then show ?thesis using assms [of e d] by (simp add: changed_def)
  qed
  then have "filter (\<lambda>c. callbackId c = i) fired' = []" by (simp add: filter_empty_conv)
  then show ?thesis unfolding inv by (simp add: calls_of_fired)
qed

section \<open>What each operation does to the registrations\<close>

lemma set_update_distinct:
  "distinct (map fst al) \<Longrightarrow> map_of al k = Some e \<Longrightarrow>
     set (AList.update k e' al) = (set al - {(k, e)}) \<union> {(k, e')}"
proof (induction al)
  case Nil
  then show ?case by simp
next
  case (Cons a al)
  obtain k0 v0 where a: "a = (k0, v0)" by (cases a)
  show ?case
  proof (cases "k0 = k")
    case True
    with Cons.prems a have "v0 = e" "k \<notin> fst ` set al" by auto
    then have "(k, e) \<notin> set al" by force
    with True a \<open>v0 = e\<close> show ?thesis by auto
  next
    case False
    with Cons.prems a have d: "distinct (map fst al)" and m: "map_of al k = Some e" by auto
    from Cons.IH [OF d m] False a show ?thesis by auto
  qed
qed

lemma regs_of_update_distinct:
  assumes "distinct (map fst al)" and "map_of al k = Some e"
  shows "regs_of (AList.update k e' al) \<subseteq>
           {x \<in> regs_of al. fst x \<noteq> k} \<union> Pair k ` set (callbacks e')"
proof
  fix x assume x: "x \<in> regs_of (AList.update k e' al)"
  obtain k' c where kc: "x = (k', c)" by (cases x)
  from x kc obtain v where v: "(k', v) \<in> set (AList.update k e' al)" "c \<in> set (callbacks v)"
    unfolding regs_of_def by auto
  from v(1) have "(k', v) \<in> (set al - {(k, e)}) \<union> {(k, e')}"
    unfolding set_update_distinct [OF assms] .
  then consider "(k', v) = (k, e')" | "(k', v) \<in> set al" "(k', v) \<noteq> (k, e)" by auto
  then show "x \<in> {x \<in> regs_of al. fst x \<noteq> k} \<union> Pair k ` set (callbacks e')"
  proof cases
    case 1
    with v(2) kc show ?thesis by auto
  next
    case 2
    have "k' \<noteq> k"
    proof
      assume "k' = k"
      with 2(1) assms(1) have "map_of al k = Some v" by simp
      with assms(2) 2(2) \<open>k' = k\<close> show False by simp
    qed
    with 2(1) v(2) kc show ?thesis by (auto intro: regs_ofI)
  qed
qed

lemma regs_of_entry: "map_of al k = Some e \<Longrightarrow> Pair k ` set (callbacks e) \<subseteq> regs_of al"
  by (auto dest: map_of_SomeD intro: regs_ofI)

lemma Store_addOnChange_regs:
  "regs_of (store_changePaths (Store_addOnChange p cb i s)) \<subseteq>
     regs_of (store_changePaths s) \<union> {(path p, \<lparr>callbackId = i, callback = cb\<rparr>)}"
proof (cases "map_of (store_changePaths s) (path p)")
  case None
  let ?e = "\<lparr>callbacks = [\<lparr>callbackId = i, callback = cb\<rparr>], previousValue = Store_get p\<rparr>"
  have "store_changePaths (Store_addOnChange p cb i s) = AList.update (path p) ?e (store_changePaths s)"
    using None by (simp add: Store_addOnChange_def Let_def)
  with regs_of_update [of "path p" ?e "store_changePaths s"] show ?thesis by simp
next
  case (Some e)
  let ?e = "e\<lparr>callbacks := callbacks e @ [\<lparr>callbackId = i, callback = cb\<rparr>]\<rparr>"
  have t: "store_changePaths (Store_addOnChange p cb i s) = AList.update (path p) ?e (store_changePaths s)"
    using Some by (simp add: Store_addOnChange_def Let_def)
  have "Pair (path p) ` set (callbacks ?e) \<subseteq>
          regs_of (store_changePaths s) \<union> {(path p, \<lparr>callbackId = i, callback = cb\<rparr>)}"
    using regs_of_entry [OF Some] by auto
  with regs_of_update [of "path p" ?e "store_changePaths s"] show ?thesis unfolding t by blast
qed

lemma Store_addOnChange_frame:
  "store_state (Store_addOnChange p cb i s) = store_state s"
  "store_callbackId (Store_addOnChange p cb i s) = store_callbackId s"
  "distinct (map fst (store_changePaths s)) \<Longrightarrow>
     distinct (map fst (store_changePaths (Store_addOnChange p cb i s)))"
  by (simp_all add: Store_addOnChange_def Let_def distinct_update)

lemma fold_addOnChange_regs:
  "regs_of (store_changePaths (fold (\<lambda>p. Store_addOnChange p cb i) ps s)) \<subseteq>
     regs_of (store_changePaths s) \<union> (\<lambda>p. (path p, \<lparr>callbackId = i, callback = cb\<rparr>)) ` set ps"
proof (induction ps arbitrary: s)
  case Nil
  then show ?case by simp
next
  case (Cons q ps)
  from Cons.IH [of "Store_addOnChange q cb i s"] Store_addOnChange_regs [of q cb i s]
  show ?case by auto
qed

lemma fold_addOnChange_frame:
  "store_state (fold (\<lambda>p. Store_addOnChange p cb i) ps s) = store_state s"
  "store_callbackId (fold (\<lambda>p. Store_addOnChange p cb i) ps s) = store_callbackId s"
  "distinct (map fst (store_changePaths s)) \<Longrightarrow>
     distinct (map fst (store_changePaths (fold (\<lambda>p. Store_addOnChange p cb i) ps s)))"
  by (induction ps arbitrary: s) (simp_all add: Store_addOnChange_frame)

lemma remove_path_table:
  "store_changePaths (remove_path i p s) =
     (case map_of (store_changePaths s) (path p) of
        None \<Rightarrow> store_changePaths s
      | Some e \<Rightarrow> AList.update (path p)
          (e\<lparr>callbacks := filter (\<lambda>c. callbackId c \<noteq> i) (callbacks e)\<rparr>) (store_changePaths s))"
  by (simp add: remove_path_def split: option.splits)

lemma remove_path_regs:
  "regs_of (store_changePaths (remove_path i p s)) \<subseteq> regs_of (store_changePaths s)"
proof (cases "map_of (store_changePaths s) (path p)")
  case None
  then show ?thesis by (simp add: remove_path_table)
next
  case (Some e)
  let ?e = "e\<lparr>callbacks := filter (\<lambda>c. callbackId c \<noteq> i) (callbacks e)\<rparr>"
  have "Pair (path p) ` set (callbacks ?e) \<subseteq> regs_of (store_changePaths s)"
    using regs_of_entry [OF Some] by auto
  with regs_of_update [of "path p" ?e "store_changePaths s"] show ?thesis
    unfolding remove_path_table Some by auto
qed

lemma remove_path_regs_distinct:
  assumes "distinct (map fst (store_changePaths s))"
  shows "regs_of (store_changePaths (remove_path i p s)) \<subseteq>
           {x \<in> regs_of (store_changePaths s). \<not> (fst x = path p \<and> callbackId (snd x) = i)}"
proof (cases "map_of (store_changePaths s) (path p)")
  case None
  have "fst x \<noteq> path p" if "x \<in> regs_of (store_changePaths s)" for x
  proof
    assume "fst x = path p"
    with that obtain v where "(path p, v) \<in> set (store_changePaths s)" unfolding regs_of_def by auto
    with assms have "map_of (store_changePaths s) (path p) = Some v" by simp
    with None show False by simp
  qed
  with None show ?thesis by (auto simp: remove_path_table)
next
  case (Some e)
  let ?e = "e\<lparr>callbacks := filter (\<lambda>c. callbackId c \<noteq> i) (callbacks e)\<rparr>"
  have "Pair (path p) ` set (callbacks ?e) \<subseteq>
          {x \<in> regs_of (store_changePaths s). \<not> (fst x = path p \<and> callbackId (snd x) = i)}"
    using regs_of_entry [OF Some] by auto
  with regs_of_update_distinct [OF assms Some, of ?e] show ?thesis
    unfolding remove_path_table Some by auto
qed

lemma remove_path_frame:
  "store_state (remove_path i p s) = store_state s"
  "store_callbackId (remove_path i p s) = store_callbackId s"
  "distinct (map fst (store_changePaths s)) \<Longrightarrow>
     distinct (map fst (store_changePaths (remove_path i p s)))"
  by (simp_all add: remove_path_def distinct_update split: option.splits)

lemma fold_remove_path_regs:
  "regs_of (store_changePaths (fold (remove_path i) ps s)) \<subseteq> regs_of (store_changePaths s)"
proof (induction ps arbitrary: s)
  case Nil
  then show ?case by simp
next
  case (Cons q ps)
  from Cons.IH [of "remove_path i q s"] remove_path_regs [of i q s] show ?case by auto
qed

lemma fold_remove_path_frame:
  "store_state (fold (remove_path i) ps s) = store_state s"
  "store_callbackId (fold (remove_path i) ps s) = store_callbackId s"
  "distinct (map fst (store_changePaths s)) \<Longrightarrow>
     distinct (map fst (store_changePaths (fold (remove_path i) ps s)))"
  by (induction ps arbitrary: s) (simp_all add: remove_path_frame)

lemma fold_remove_path_regs_distinct:
  "distinct (map fst (store_changePaths s)) \<Longrightarrow>
   regs_of (store_changePaths (fold (remove_path i) ps s)) \<subseteq>
     {x \<in> regs_of (store_changePaths s). \<not> (fst x \<in> path ` set ps \<and> callbackId (snd x) = i)}"
proof (induction ps arbitrary: s)
  case Nil
  then show ?case by simp
next
  case (Cons q ps)
  have d: "distinct (map fst (store_changePaths (remove_path i q s)))"
    using Cons.prems by (rule remove_path_frame(3))
  from Cons.IH [OF d] remove_path_regs_distinct [OF Cons.prems, of i q]
  show ?case by auto
qed

lemma changePaths_forEach_regs:
  assumes "changePaths_forEach pg es (s, called, fired) = (s', called', fired')"
  shows "regs_of es \<subseteq> R \<Longrightarrow> regs_of (store_changePaths s) \<subseteq> R \<Longrightarrow>
         regs_of (store_changePaths s') \<subseteq> R"
  using assms
proof (induction rule: changePaths_forEach_induct)
  case (Nil s called fired)
  then show ?case by simp
next
  case (Unchanged p v rest s called fired s' called' fired')
  then show ?case by (simp add: regs_of_Cons)
next
  case (Changed p v rest s called fired s1 called1 fired1 s' called' fired')
  let ?e = "\<lparr>callbacks = callbacks v, previousValue = pg (Pointer_new (Inl p)) (store_state s)\<rparr>"
  have "Pair p ` set (callbacks ?e) \<subseteq> R" using Changed(6) by (auto simp: regs_of_Cons)
  with regs_of_update [of p ?e "store_changePaths s"] Changed(7)
  have "regs_of (store_changePaths s1) \<subseteq> R" unfolding Changed(2) by auto
  moreover have "regs_of rest \<subseteq> R" using Changed(6) by (auto simp: regs_of_Cons)
  ultimately show ?case using Changed(5) by blast
qed

lemma changePaths_forEach_distinct:
  assumes "changePaths_forEach pg es (s, called, fired) = (s', called', fired')"
  shows "distinct (map fst (store_changePaths s)) \<Longrightarrow> distinct (map fst (store_changePaths s'))"
  using assms
  by (induction rule: changePaths_forEach_induct) (simp_all add: distinct_update)

lemma Store_invalidate_frame:
  "store_state (fst (Store_invalidate pg s)) = store_state s"
  "store_callbackId (fst (Store_invalidate pg s)) = store_callbackId s"
  "regs_of (store_changePaths (fst (Store_invalidate pg s))) \<subseteq> regs_of (store_changePaths s)"
  "distinct (map fst (store_changePaths s)) \<Longrightarrow>
     distinct (map fst (store_changePaths (fst (Store_invalidate pg s))))"
proof -
  obtain s' called' fired' where
    run: "changePaths_forEach pg (store_changePaths s) (s, [], []) = (s', called', fired')"
    and inv: "Store_invalidate pg s = (s', map Called fired' @ [Emitted ''invalidate''])"
    by (rule Store_runOnChanges_run)
  from changePaths_forEach_state' [OF run] inv
  show "store_state (fst (Store_invalidate pg s)) = store_state s"
    "store_callbackId (fst (Store_invalidate pg s)) = store_callbackId s" by simp_all
  from changePaths_forEach_regs [OF run, of "regs_of (store_changePaths s)"] inv
  show "regs_of (store_changePaths (fst (Store_invalidate pg s))) \<subseteq> regs_of (store_changePaths s)"
    by simp
  from changePaths_forEach_distinct [OF run] inv
  show "distinct (map fst (store_changePaths s)) \<Longrightarrow>
     distinct (map fst (store_changePaths (fst (Store_invalidate pg s))))" by simp
qed

lemma Store_invalidate_calls:
  "set (calls_of i (snd (Store_invalidate pg s))) \<subseteq>
     callback ` {c \<in> set (all_callbacks s). callbackId c = i}"
proof -
  obtain s' called' fired' where
    run: "changePaths_forEach pg (store_changePaths s) (s, [], []) = (s', called', fired')"
    and inv: "Store_invalidate pg s = (s', map Called fired' @ [Emitted ''invalidate''])"
    by (rule Store_runOnChanges_run)
  from changePaths_forEach_fired [OF run] have "set fired' \<subseteq> set (all_callbacks s)"
    by (simp add: set_all_callbacks)
  then show ?thesis unfolding inv by (auto simp: calls_of_fired)
qed

lemma table_shrinks_invalidate: "table_shrinks s (fst (Store_invalidate pg s))"
  by (simp add: table_shrinks_def Store_invalidate_frame)

lemma table_shrinks_state: "table_shrinks s (s\<lparr>store_state := x\<rparr>)"
  by (simp add: table_shrinks_def)

lemma table_shrinks_trans: "table_shrinks a b \<Longrightarrow> table_shrinks b c \<Longrightarrow> table_shrinks a c"
  unfolding table_shrinks_def by auto

lemma table_shrinks_apply: "table_shrinks s (store_of (Store_apply pa pg ops iv s))"
proof (cases "case iv of None \<Rightarrow> False | Some b \<Rightarrow> b")
  case True
  let ?s1 = "s\<lparr>store_state := object (pa ops (store_state s))\<rparr>"
  have "store_of (Store_apply pa pg ops iv s) = fst (Store_invalidate pg ?s1)"
    using True by (simp add: Store_apply_def Let_def store_of_def case_prod_beta)
  moreover have "table_shrinks s (fst (Store_invalidate pg ?s1))"
    by (rule table_shrinks_trans [OF table_shrinks_state table_shrinks_invalidate])
  ultimately show ?thesis by simp
next
  case False
  then have "store_of (Store_apply pa pg ops iv s) = s\<lparr>store_state := object (pa ops (store_state s))\<rparr>"
    by (simp add: Store_apply_def Let_def store_of_def)
  then show ?thesis by (simp add: table_shrinks_state)
qed

lemma table_shrinks_remove: "table_shrinks s (handle_remove h s)"
  by (simp add: table_shrinks_def handle_remove_def fold_remove_path_regs fold_remove_path_frame)

lemma Store_apply_calls:
  "set (calls_of i (effects_of (Store_apply pa pg ops iv s))) \<subseteq>
     callback ` {c \<in> set (all_callbacks s). callbackId c = i}"
proof (cases "case iv of None \<Rightarrow> False | Some b \<Rightarrow> b")
  case True
  let ?s1 = "s\<lparr>store_state := object (pa ops (store_state s))\<rparr>"
  have "effects_of (Store_apply pa pg ops iv s) = snd (Store_invalidate pg ?s1)"
    using True by (simp add: Store_apply_def Let_def effects_of_def case_prod_beta)
  moreover have "all_callbacks ?s1 = all_callbacks s" by (simp add: all_callbacks_def)
  ultimately show ?thesis using Store_invalidate_calls [of i pg ?s1] by simp
next
  case False
  then have "effects_of (Store_apply pa pg ops iv s) = []"
    by (simp add: Store_apply_def Let_def effects_of_def)
  then show ?thesis by simp
qed

section \<open>Every reachable store is well formed\<close>

lemma well_formed_iff:
  "well_formed s \<longleftrightarrow>
     distinct (map fst (store_changePaths s)) \<and>
     (\<forall>x \<in> regs_of (store_changePaths s). callbackId (snd x) < store_callbackId s) \<and>
     (\<forall>x \<in> regs_of (store_changePaths s). \<forall>y \<in> regs_of (store_changePaths s).
        callbackId (snd y) = callbackId (snd x) \<longrightarrow> callback (snd y) = callback (snd x))"
  unfolding well_formed_def list_all_iff set_all_callbacks by blast

lemma well_formedI:
  assumes "distinct (map fst (store_changePaths s))"
    and "\<And>x. x \<in> regs_of (store_changePaths s) \<Longrightarrow> callbackId (snd x) < store_callbackId s"
    and "\<And>x y. x \<in> regs_of (store_changePaths s) \<Longrightarrow> y \<in> regs_of (store_changePaths s) \<Longrightarrow>
           callbackId (snd y) = callbackId (snd x) \<Longrightarrow> callback (snd y) = callback (snd x)"
  shows "well_formed s"
  unfolding well_formed_iff using assms by blast

lemma well_formed_distinct: "well_formed s \<Longrightarrow> distinct (map fst (store_changePaths s))"
  unfolding well_formed_iff by (rule conjunct1)

lemma well_formed_below:
  "well_formed s \<Longrightarrow> x \<in> regs_of (store_changePaths s) \<Longrightarrow> callbackId (snd x) < store_callbackId s"
  unfolding well_formed_iff by blast

lemma well_formed_fn:
  "well_formed s \<Longrightarrow> x \<in> regs_of (store_changePaths s) \<Longrightarrow> y \<in> regs_of (store_changePaths s) \<Longrightarrow>
     callbackId (snd y) = callbackId (snd x) \<Longrightarrow> callback (snd y) = callback (snd x)"
  unfolding well_formed_iff by blast

lemma well_formed_shrinks:
  assumes sh: "table_shrinks s s'" and wf: "well_formed s"
  shows "well_formed s'"
proof (rule well_formedI)
  from sh have sub: "regs_of (store_changePaths s') \<subseteq> regs_of (store_changePaths s)"
    and cnt: "store_callbackId s' = store_callbackId s"
    and d: "distinct (map fst (store_changePaths s)) \<longrightarrow> distinct (map fst (store_changePaths s'))"
    unfolding table_shrinks_def by blast+
  from d well_formed_distinct [OF wf] show "distinct (map fst (store_changePaths s'))" by blast
  show "callbackId (snd x) < store_callbackId s'" if "x \<in> regs_of (store_changePaths s')" for x
    using well_formed_below [OF wf, of x] that sub cnt by auto
  show "callback (snd y) = callback (snd x)"
    if "x \<in> regs_of (store_changePaths s')" "y \<in> regs_of (store_changePaths s')"
      "callbackId (snd y) = callbackId (snd x)" for x y
    using well_formed_fn [OF wf, of x y] that sub by auto
qed

lemma Store_onChange_parts:
  "fst (Store_onChange paths cb s) =
     \<lparr>handle_paths = (case paths of Inl p \<Rightarrow> [p] | Inr ps \<Rightarrow> ps), handle_callbackId = store_callbackId s\<rparr>"
  "snd (Store_onChange paths cb s) =
     (fold (\<lambda>p. Store_addOnChange p cb (store_callbackId s)) (case paths of Inl p \<Rightarrow> [p] | Inr ps \<Rightarrow> ps) s)
       \<lparr>store_callbackId := store_callbackId s + 1\<rparr>"
  by (simp_all add: Store_onChange_def Let_def fold_addOnChange_frame)

lemma Store_onChange_frame:
  "store_state (snd (Store_onChange paths cb s)) = store_state s"
  "store_callbackId (snd (Store_onChange paths cb s)) = store_callbackId s + 1"
  "distinct (map fst (store_changePaths s)) \<Longrightarrow>
     distinct (map fst (store_changePaths (snd (Store_onChange paths cb s))))"
  "regs_of (store_changePaths (snd (Store_onChange paths cb s))) \<subseteq>
     regs_of (store_changePaths s) \<union>
     (\<lambda>p. (path p, \<lparr>callbackId = store_callbackId s, callback = cb\<rparr>)) `
       set (handle_paths (fst (Store_onChange paths cb s)))"
  using fold_addOnChange_regs [of cb "store_callbackId s" "case paths of Inl p \<Rightarrow> [p] | Inr ps \<Rightarrow> ps" s]
  by (simp_all add: Store_onChange_parts fold_addOnChange_frame)

lemma well_formed_onChange:
  assumes "well_formed s"
  shows "well_formed (snd (Store_onChange paths cb s))"
proof -
  let ?s' = "snd (Store_onChange paths cb s)"
  let ?new = "(\<lambda>p. (path p, \<lparr>callbackId = store_callbackId s, callback = cb\<rparr>)) `
       set (handle_paths (fst (Store_onChange paths cb s)))"
  have sub: "regs_of (store_changePaths ?s') \<subseteq> regs_of (store_changePaths s) \<union> ?new"
    by (rule Store_onChange_frame(4))
  have old: "callbackId (snd x) < store_callbackId s" if "x \<in> regs_of (store_changePaths s)" for x
    using assms that by (rule well_formed_below)
  have new: "callbackId (snd x) = store_callbackId s \<and> callback (snd x) = cb" if "x \<in> ?new" for x
    using that by auto
  have fn: "callback (snd y) = callback (snd x)"
    if "x \<in> regs_of (store_changePaths s)" "y \<in> regs_of (store_changePaths s)"
      "callbackId (snd y) = callbackId (snd x)" for x y
    using assms that by (rule well_formed_fn)
  have 1: "distinct (map fst (store_changePaths ?s'))"
    using assms by (simp add: well_formed_iff Store_onChange_frame(3))
  have 2: "callbackId (snd x) < store_callbackId ?s'" if "x \<in> regs_of (store_changePaths ?s')" for x
  proof -
    from that sub have "x \<in> regs_of (store_changePaths s) \<or> x \<in> ?new" by blast
    then show ?thesis using old [of x] new [of x] by (auto simp: Store_onChange_frame(2))
  qed
  have 3: "callback (snd y) = callback (snd x)"
    if x: "x \<in> regs_of (store_changePaths ?s')" and y: "y \<in> regs_of (store_changePaths ?s')"
      and eq: "callbackId (snd y) = callbackId (snd x)" for x y
  proof -
    from x sub have x': "x \<in> regs_of (store_changePaths s) \<or> x \<in> ?new" by blast
    from y sub have y': "y \<in> regs_of (store_changePaths s) \<or> y \<in> ?new" by blast
    from x' y' show ?thesis
    proof (elim disjE)
      assume "x \<in> regs_of (store_changePaths s)" "y \<in> regs_of (store_changePaths s)"
      then show ?thesis using eq by (rule fn)
    next
      assume "x \<in> regs_of (store_changePaths s)" "y \<in> ?new"
      with old [of x] new [of y] eq show ?thesis by simp
    next
      assume "x \<in> ?new" "y \<in> regs_of (store_changePaths s)"
      with old [of y] new [of x] eq show ?thesis by simp
    next
      assume "x \<in> ?new" "y \<in> ?new"
      with new [of x] new [of y] show ?thesis by simp
    qed
  qed
  from 1 2 3 show ?thesis by (rule well_formedI)
qed

lemma well_formed_call: "well_formed s \<Longrightarrow> well_formed (fst (Store_call pa pg c s))"
proof (cases c)
  case (Apply ops iv)
  assume "well_formed s"
  with well_formed_shrinks [OF table_shrinks_apply [of s pa pg ops iv]]
  show ?thesis using Apply by (simp add: store_of_def case_prod_beta)
next
  case (OnChange paths cb)
  assume "well_formed s"
  then show ?thesis using OnChange by (simp add: well_formed_onChange)
next
  case (HandleRemove h)
  assume "well_formed s"
  with well_formed_shrinks [OF table_shrinks_remove [of s h]] show ?thesis using HandleRemove by simp
next
  case Invalidate
  assume "well_formed s"
  with well_formed_shrinks [OF table_shrinks_invalidate [of s pg]] show ?thesis using Invalidate by simp
qed

lemma Store_calls_Cons:
  "fst (Store_calls pa pg (c # cs) s) = fst (Store_calls pa pg cs (fst (Store_call pa pg c s)))"
  "snd (Store_calls pa pg (c # cs) s) =
     snd (Store_call pa pg c s) @ snd (Store_calls pa pg cs (fst (Store_call pa pg c s)))"
  by (simp_all add: case_prod_beta)

lemma well_formed_calls: "well_formed s \<Longrightarrow> well_formed (fst (Store_calls pa pg cs s))"
proof (induction cs arbitrary: s)
  case Nil
  then show ?case by simp
next
  case (Cons c cs)
  from Cons.IH [OF well_formed_call [OF Cons.prems]] show ?case by (simp only: Store_calls_Cons)
qed

lemma well_formed_new: "well_formed (Store_new e)"
  by (simp add: well_formed_def Store_new_def all_callbacks_def)

section \<open>A removed subscription stays removed\<close>

lemma unsubscribed_shrinks: "table_shrinks s s' \<Longrightarrow> unsubscribed i s \<Longrightarrow> unsubscribed i s'"
  unfolding unsubscribed_def table_shrinks_def by auto

lemma subscribed_within_shrinks:
  "table_shrinks s s' \<Longrightarrow> subscribed_within i K s \<Longrightarrow> subscribed_within i K s'"
  unfolding subscribed_within_def table_shrinks_def by auto

lemma unsubscribed_no_calls:
  assumes "unsubscribed i s"
  shows "{c \<in> set (all_callbacks s). callbackId c = i} = {}"
  using assms unfolding unsubscribed_def set_all_callbacks by auto

lemma unsubscribed_onChange:
  assumes "unsubscribed i s"
  shows "unsubscribed i (snd (Store_onChange paths cb s))"
proof -
  have "callbackId (snd x) \<noteq> i" if "x \<in> regs_of (store_changePaths (snd (Store_onChange paths cb s)))" for x
  proof -
    from that Store_onChange_frame(4) [of paths cb s]
    consider "x \<in> regs_of (store_changePaths s)" | "callbackId (snd x) = store_callbackId s" by auto
    then show ?thesis using assms unfolding unsubscribed_def by cases auto
  qed
  then show ?thesis using assms unfolding unsubscribed_def by (simp add: Store_onChange_frame(2))
qed

lemma subscribed_within_onChange:
  assumes "subscribed_within i K s"
  shows "subscribed_within i K (snd (Store_onChange paths cb s))"
proof -
  have "fst x \<in> K" if "x \<in> regs_of (store_changePaths (snd (Store_onChange paths cb s)))"
    "callbackId (snd x) = i" for x
  proof -
    from that(1) Store_onChange_frame(4) [of paths cb s]
    consider "x \<in> regs_of (store_changePaths s)" | "callbackId (snd x) = store_callbackId s" by auto
    then show ?thesis using assms that(2) unfolding subscribed_within_def by cases auto
  qed
  then show ?thesis using assms unfolding subscribed_within_def
    by (simp add: Store_onChange_frame(2,3))
qed

lemma unsubscribed_call:
  assumes "unsubscribed i s"
  shows "unsubscribed i (fst (Store_call pa pg c s))" and "calls_of i (snd (Store_call pa pg c s)) = []"
proof -
  note none = unsubscribed_no_calls [OF assms]
  show "unsubscribed i (fst (Store_call pa pg c s))"
  proof (cases c)
    case (Apply ops iv)
    with unsubscribed_shrinks [OF table_shrinks_apply [of s pa pg ops iv] assms]
    show ?thesis by (simp add: store_of_def case_prod_beta)
  next
    case (OnChange paths cb)
    with unsubscribed_onChange [OF assms] show ?thesis by simp
  next
    case (HandleRemove h)
    with unsubscribed_shrinks [OF table_shrinks_remove [of s h] assms] show ?thesis by simp
  next
    case Invalidate
    with unsubscribed_shrinks [OF table_shrinks_invalidate [of s pg] assms] show ?thesis by simp
  qed
  show "calls_of i (snd (Store_call pa pg c s)) = []"
  proof (cases c)
    case (Apply ops iv)
    with Store_apply_calls [of i pa pg ops iv s] none show ?thesis
      by (simp add: effects_of_def case_prod_beta)
  next
    case (OnChange paths cb)
    then show ?thesis by simp
  next
    case (HandleRemove h)
    then show ?thesis by simp
  next
    case Invalidate
    with Store_invalidate_calls [of i pg s] none show ?thesis by simp
  qed
qed

lemma calls_of_append: "calls_of i (es @ es') = calls_of i es @ calls_of i es'"
  by (induction i es rule: calls_of.induct) auto

lemma unsubscribed_calls:
  "unsubscribed i s \<Longrightarrow> calls_of i (snd (Store_calls pa pg cs s)) = []"
proof (induction cs arbitrary: s)
  case Nil
  then show ?case by simp
next
  case (Cons c cs)
  from Cons.IH [OF unsubscribed_call(1) [OF Cons.prems, of pa pg c]]
    unsubscribed_call(2) [OF Cons.prems, of pa pg c]
  show ?case by (simp only: Store_calls_Cons calls_of_append) simp
qed

lemma subscribed_within_call:
  assumes "subscribed_within i K s"
  shows "subscribed_within i K (fst (Store_call pa pg c s))"
proof (cases c)
  case (Apply ops iv)
  with subscribed_within_shrinks [OF table_shrinks_apply [of s pa pg ops iv] assms]
  show ?thesis by (simp add: store_of_def case_prod_beta)
next
  case (OnChange paths cb)
  with subscribed_within_onChange [OF assms] show ?thesis by simp
next
  case (HandleRemove h)
  with subscribed_within_shrinks [OF table_shrinks_remove [of s h] assms] show ?thesis by simp
next
  case Invalidate
  with subscribed_within_shrinks [OF table_shrinks_invalidate [of s pg] assms] show ?thesis by simp
qed

lemma subscribed_within_calls:
  "subscribed_within i K s \<Longrightarrow> subscribed_within i K (fst (Store_calls pa pg cs s))"
proof (induction cs arbitrary: s)
  case Nil
  then show ?case by simp
next
  case (Cons c cs)
  from Cons.IH [OF subscribed_within_call [OF Cons.prems]] show ?case by (simp only: Store_calls_Cons)
qed

lemma subscribed_within_after_onChange:
  assumes "well_formed s"
  shows "subscribed_within (store_callbackId s) (path ` set (handle_paths (fst (Store_onChange paths cb s))))
           (snd (Store_onChange paths cb s))"
proof -
  let ?h = "fst (Store_onChange paths cb s)" and ?s' = "snd (Store_onChange paths cb s)"
  have "fst x \<in> path ` set (handle_paths ?h)"
    if "x \<in> regs_of (store_changePaths ?s')" "callbackId (snd x) = store_callbackId s" for x
  proof -
    from that(1) Store_onChange_frame(4) [of paths cb s]
    consider "x \<in> regs_of (store_changePaths s)" | "fst x \<in> path ` set (handle_paths ?h)" by auto
    then show ?thesis
    proof cases
      case 1
      from well_formed_below [OF assms 1] that(2) show ?thesis by simp
    next
      case 2
      then show ?thesis .
    qed
  qed
  then show ?thesis unfolding subscribed_within_def
    using well_formed_distinct [OF assms] by (simp add: Store_onChange_frame(2,3))
qed

lemma unsubscribed_after_remove:
  assumes "subscribed_within (handle_callbackId h) (path ` set (handle_paths h)) s"
  shows "unsubscribed (handle_callbackId h) (handle_remove h s)"
proof -
  from assms have d: "distinct (map fst (store_changePaths s))" unfolding subscribed_within_def by blast
  have "callbackId (snd x) \<noteq> handle_callbackId h"
    if "x \<in> regs_of (store_changePaths (handle_remove h s))" for x
  proof
    assume eq: "callbackId (snd x) = handle_callbackId h"
    from that fold_remove_path_regs_distinct [OF d, of "handle_callbackId h" "handle_paths h"]
    have x: "x \<in> regs_of (store_changePaths s)"
      "\<not> (fst x \<in> path ` set (handle_paths h) \<and> callbackId (snd x) = handle_callbackId h)"
      unfolding handle_remove_def by auto
    from assms x(1) eq have "fst x \<in> path ` set (handle_paths h)" unfolding subscribed_within_def by blast
    with x(2) eq show False by blast
  qed
  then show ?thesis using assms unfolding unsubscribed_def subscribed_within_def
    by (simp add: handle_remove_def fold_remove_path_frame)
qed

lemma remove_path_id: "filtered_at i (path p) s \<Longrightarrow> remove_path i p s = s"
  by (auto simp: filtered_at_def remove_path_def update_triv split: option.splits)

lemma remove_path_filtered: "filtered_at i (path p) (remove_path i p s)"
  by (auto simp: filtered_at_def remove_path_def update_conv' split: option.splits)

lemma remove_path_keeps_filtered: "filtered_at i k s \<Longrightarrow> filtered_at i k (remove_path i p s)"
  by (cases "k = path p") (auto simp: filtered_at_def remove_path_def update_conv' split: option.splits)

lemma fold_remove_path_keeps_filtered:
  "filtered_at i k s \<Longrightarrow> filtered_at i k (fold (remove_path i) ps s)"
  by (induction ps arbitrary: s) (simp_all add: remove_path_keeps_filtered)

lemma fold_remove_path_filtered:
  "p \<in> set ps \<Longrightarrow> filtered_at i (path p) (fold (remove_path i) ps s)"
proof (induction ps arbitrary: s)
  case Nil
  then show ?case by simp
next
  case (Cons q ps)
  show ?case
  proof (cases "p = q")
    case True
    then show ?thesis
      by (simp add: fold_remove_path_keeps_filtered remove_path_filtered)
  next
    case False
    with Cons show ?thesis by simp
  qed
qed

lemma fold_remove_path_id:
  "(\<And>p. p \<in> set ps \<Longrightarrow> filtered_at i (path p) s) \<Longrightarrow> fold (remove_path i) ps s = s"
proof (induction ps)
  case Nil
  then show ?case by simp
next
  case (Cons q ps)
  then show ?case by (simp add: remove_path_id)
qed

lemma handle_remove_idem: "handle_remove h (handle_remove h s) = handle_remove h s"
  unfolding handle_remove_def
  by (rule fold_remove_path_id) (rule fold_remove_path_filtered)

section \<open>The table after a registration and after an invalidation\<close>

lemma Store_addOnChange_map_of:
  "map_of (store_changePaths (Store_addOnChange q cb i s)) k =
     registered_entry [q] cb i (map_of (store_changePaths s) k) k"
  by (auto simp: Store_addOnChange_def registered_entry_def Let_def update_conv' Store_get_def
      split: option.splits)

lemma registered_entry_Cons:
  "registered_entry (q # ps) cb i before k =
     registered_entry ps cb i (registered_entry [q] cb i before k) k"
  by (auto simp: registered_entry_def replicate_append_same split: list.splits option.splits)

lemma fold_addOnChange_map_of:
  "map_of (store_changePaths (fold (\<lambda>p. Store_addOnChange p cb i) ps s)) k =
     registered_entry ps cb i (map_of (store_changePaths s) k) k"
proof (induction ps arbitrary: s)
  case Nil
  then show ?case by (simp add: registered_entry_def)
next
  case (Cons q ps)
  show ?case
    by (simp add: Cons.IH Store_addOnChange_map_of registered_entry_Cons [of q ps])
qed

lemma changePaths_forEach_map_of:
  assumes "changePaths_forEach pg es (s, called, fired) = (s', called', fired')"
  shows "distinct (map fst es) \<Longrightarrow>
         map_of (store_changePaths s') k =
           (case map_of es k of
              None \<Rightarrow> map_of (store_changePaths s) k
            | Some v \<Rightarrow>
                if changed pg (store_state s) (k, v)
                then Some \<lparr>callbacks = callbacks v, previousValue = pg (Pointer_new (Inl k)) (store_state s)\<rparr>
                else map_of (store_changePaths s) k)"
  using assms
proof (induction rule: changePaths_forEach_induct)
  case (Nil s called fired)
  then show ?case by simp
next
  case (Unchanged p v rest s called fired s' called' fired')
  from Unchanged(4) have d: "distinct (map fst rest)" and p: "map_of rest p = None"
    by (auto simp: map_of_eq_None_iff)
  show ?case
  proof (cases "k = p")
    case True
    with Unchanged(3) [OF d] p Unchanged(1) show ?thesis by simp
  next
    case False
    with Unchanged(3) [OF d] show ?thesis by simp
  qed
next
  case (Changed p v rest s called fired s1 called1 fired1 s' called' fired')
  from Changed(6) have d: "distinct (map fst rest)" and p: "map_of rest p = None"
    by (auto simp: map_of_eq_None_iff)
  have st: "store_state s1 = store_state s" using Changed(2) by simp
  have t: "map_of (store_changePaths s1) k =
      (if k = p then Some \<lparr>callbacks = callbacks v, previousValue = pg (Pointer_new (Inl p)) (store_state s)\<rparr>
       else map_of (store_changePaths s) k)"
    using Changed(2) by (simp add: update_conv')
  show ?case
  proof (cases "k = p")
    case True
    with Changed(5) [OF d] p t Changed(1) show ?thesis by (simp add: st)
  next
    case False
    with Changed(5) [OF d] t show ?thesis by (simp add: st split: option.splits)
  qed
qed

lemma Store_invalidate_map_of:
  assumes "distinct (map fst (store_changePaths s))"
  shows "map_of (store_changePaths (fst (Store_invalidate pg s))) k =
           (case map_of (store_changePaths s) k of
              None \<Rightarrow> None
            | Some v \<Rightarrow>
                if previousValue v \<noteq> pg (Pointer_new (Inl k)) (store_state s)
                then Some \<lparr>callbacks = callbacks v, previousValue = pg (Pointer_new (Inl k)) (store_state s)\<rparr>
                else Some v)"
proof -
  obtain s' called' fired' where
    run: "changePaths_forEach pg (store_changePaths s) (s, [], []) = (s', called', fired')"
    and inv: "Store_invalidate pg s = (s', map Called fired' @ [Emitted ''invalidate''])"
    by (rule Store_runOnChanges_run)
  from changePaths_forEach_map_of [OF run assms, of k] show ?thesis
    unfolding inv by (simp add: changed_def split: option.splits)
qed

section \<open>The worker store, field by field\<close>

lemma resolve_waiter_pending:
  assumes "p < length (ws_waiters ws)" and "settled (ws_waiters ws ! p) = None"
  shows "ws_waiters (resolve_waiter p v ws) = (ws_waiters ws)[p := (ws_waiters ws ! p)\<lparr>settled := Some v\<rparr>]"
    and "ws_messageQueue (resolve_waiter p v ws) = ws_messageQueue ws"
    and "ws_warnings (resolve_waiter p v ws) = ws_warnings ws"
    and "ws_posted (resolve_waiter p v ws) = ws_posted ws"
    and "ws_messageId (resolve_waiter p v ws) = ws_messageId ws"
    and "ws_events (resolve_waiter p v ws) =
           ws_events ws @ (if then_invalidate (ws_waiters ws ! p) then [''invalidate''] else [])"
  using assms by (simp_all add: resolve_waiter_def WorkerStore_invalidate_def Let_def)

lemma WorkerStore_getResult_parts:
  "fst (WorkerStore_getResult ws) = length (ws_waiters ws)"
  "ws_waiters (snd (WorkerStore_getResult ws)) = ws_waiters ws @ [\<lparr>then_invalidate = False, settled = None\<rparr>]"
  "ws_messageId (snd (WorkerStore_getResult ws)) = ws_messageId ws + 1"
  "ws_messageQueue (snd (WorkerStore_getResult ws)) = (ws_messageQueue ws)(ws_messageId ws + 1 \<mapsto> length (ws_waiters ws))"
  "ws_posted (snd (WorkerStore_getResult ws)) = ws_posted ws"
  "ws_events (snd (WorkerStore_getResult ws)) = ws_events ws"
  "ws_warnings (snd (WorkerStore_getResult ws)) = ws_warnings ws"
  by (simp_all add: WorkerStore_getResult_def Let_def)

lemma WorkerStore_apply_parts:
  "fst (WorkerStore_apply ops iv ws) = length (ws_waiters ws)"
  "ws_waiters (snd (WorkerStore_apply ops iv ws)) =
     ws_waiters ws @ [\<lparr>then_invalidate = (case iv of None \<Rightarrow> False | Some b \<Rightarrow> b), settled = None\<rparr>]"
  "ws_messageId (snd (WorkerStore_apply ops iv ws)) = ws_messageId ws + 1"
  "ws_messageQueue (snd (WorkerStore_apply ops iv ws)) = (ws_messageQueue ws)(ws_messageId ws + 1 \<mapsto> length (ws_waiters ws))"
  "ws_posted (snd (WorkerStore_apply ops iv ws)) =
     ws_posted ws @ [\<lparr>msg_id = ws_messageId ws + 1, msg_type = ''apply'',
                      msg_payload = PayloadOperations (map (map_operation Pointer_path) ops)\<rparr>]"
  "ws_events (snd (WorkerStore_apply ops iv ws)) = ws_events ws"
  "ws_warnings (snd (WorkerStore_apply ops iv ws)) = ws_warnings ws"
  by (simp_all add: WorkerStore_apply_def Let_def case_prod_beta WorkerStore_getResult_parts)

lemma WorkerStore_get_parts:
  "fst (WorkerStore_get pth ws) = length (ws_waiters ws)"
  "ws_waiters (snd (WorkerStore_get pth ws)) = ws_waiters ws @ [\<lparr>then_invalidate = False, settled = None\<rparr>]"
  "ws_messageId (snd (WorkerStore_get pth ws)) = ws_messageId ws + 1"
  "ws_messageQueue (snd (WorkerStore_get pth ws)) = (ws_messageQueue ws)(ws_messageId ws + 1 \<mapsto> length (ws_waiters ws))"
  "ws_posted (snd (WorkerStore_get pth ws)) =
     ws_posted ws @ [\<lparr>msg_id = ws_messageId ws + 1, msg_type = ''get'', msg_payload = PayloadPath (path pth)\<rparr>]"
  "ws_events (snd (WorkerStore_get pth ws)) = ws_events ws"
  "ws_warnings (snd (WorkerStore_get pth ws)) = ws_warnings ws"
  by (simp_all add: WorkerStore_get_def Let_def case_prod_beta WorkerStore_getResult_parts)

text \<open>
  Every worker store reached from a new one by \<open>get\<close>, \<open>apply\<close> and messages of the worker
  keeps in its table only pending promises, one identifier each.
\<close>

lemma entries_pending_new: "entries_pending WorkerStore_new"
  by (simp add: entries_pending_def WorkerStore_new_def)

lemma entries_pending_file:
  assumes ep: "entries_pending ws"
    and q: "ws_messageQueue ws' = (ws_messageQueue ws)(m \<mapsto> length (ws_waiters ws))"
    and w: "ws_waiters ws' = ws_waiters ws @ [\<lparr>then_invalidate = b, settled = None\<rparr>]"
  shows "entries_pending ws'"
  unfolding entries_pending_def
proof (intro allI impI)
  fix mid p assume a: "ws_messageQueue ws' mid = Some p"
  show "p < length (ws_waiters ws') \<and> settled (ws_waiters ws' ! p) = None \<and>
        (\<forall>mid'. ws_messageQueue ws' mid' = Some p \<longrightarrow> mid' = mid)"
  proof (cases "mid = m")
    case True
    with a q have p: "p = length (ws_waiters ws)" by simp
    have "mid' = mid" if "ws_messageQueue ws' mid' = Some p" for mid'
    proof (rule ccontr)
      assume "mid' \<noteq> mid"
      with that q True have "ws_messageQueue ws mid' = Some p" by simp
      with ep have "p < length (ws_waiters ws)" unfolding entries_pending_def by blast
      with p show False by simp
    qed
    with p w show ?thesis by simp
  next
    case False
    with a q have old: "ws_messageQueue ws mid = Some p" by simp
    with ep have p: "p < length (ws_waiters ws)" "settled (ws_waiters ws ! p) = None"
      and inj: "\<And>mid'. ws_messageQueue ws mid' = Some p \<Longrightarrow> mid' = mid"
      unfolding entries_pending_def by blast+
    have "mid' = mid" if "ws_messageQueue ws' mid' = Some p" for mid'
    proof (cases "mid' = m")
      case True
      with that q have "p = length (ws_waiters ws)" by simp
      with p(1) show ?thesis by simp
    next
      case False
      with that q have "ws_messageQueue ws mid' = Some p" by simp
      then show ?thesis by (rule inj)
    qed
    with p w show ?thesis by (simp add: nth_append)
  qed
qed

lemma entries_pending_get: "entries_pending ws \<Longrightarrow> entries_pending (snd (WorkerStore_get pth ws))"
  by (rule entries_pending_file [where m = "ws_messageId ws + 1" and b = False])
    (simp_all add: WorkerStore_get_parts)

lemma entries_pending_apply:
  "entries_pending ws \<Longrightarrow> entries_pending (snd (WorkerStore_apply ops iv ws))"
  by (rule entries_pending_file [where m = "ws_messageId ws + 1"
        and b = "case iv of None \<Rightarrow> False | Some b \<Rightarrow> b"])
    (simp_all add: WorkerStore_apply_parts)

lemma onmessage_pending:
  assumes q: "ws_messageQueue ws mid = Some p" and p: "p < length (ws_waiters ws)"
    and pend: "settled (ws_waiters ws ! p) = None"
  shows "ws_waiters (WorkerStore_onmessage \<lparr>data_id = mid, data_result = res\<rparr> ws) =
           (ws_waiters ws)[p := (ws_waiters ws ! p)\<lparr>settled := Some res\<rparr>]"
    and "ws_messageQueue (WorkerStore_onmessage \<lparr>data_id = mid, data_result = res\<rparr> ws) =
           (ws_messageQueue ws)(mid := None)"
    and "ws_warnings (WorkerStore_onmessage \<lparr>data_id = mid, data_result = res\<rparr> ws) = ws_warnings ws"
    and "ws_posted (WorkerStore_onmessage \<lparr>data_id = mid, data_result = res\<rparr> ws) = ws_posted ws"
    and "ws_messageId (WorkerStore_onmessage \<lparr>data_id = mid, data_result = res\<rparr> ws) = ws_messageId ws"
    and "ws_events (WorkerStore_onmessage \<lparr>data_id = mid, data_result = res\<rparr> ws) =
           ws_events ws @ (if then_invalidate (ws_waiters ws ! p) then [''invalidate''] else [])"
proof -
  have ws': "WorkerStore_onmessage \<lparr>data_id = mid, data_result = res\<rparr> ws =
      (resolve_waiter p res ws)\<lparr>ws_messageQueue := (ws_messageQueue (resolve_waiter p res ws))(mid := None)\<rparr>"
    using q by (simp add: WorkerStore_onmessage_def Let_def)
  note rw = resolve_waiter_pending [OF p pend, of res]
  show "ws_waiters (WorkerStore_onmessage \<lparr>data_id = mid, data_result = res\<rparr> ws) =
           (ws_waiters ws)[p := (ws_waiters ws ! p)\<lparr>settled := Some res\<rparr>]"
    by (simp add: ws' rw)
  show "ws_messageQueue (WorkerStore_onmessage \<lparr>data_id = mid, data_result = res\<rparr> ws) =
           (ws_messageQueue ws)(mid := None)"
    by (simp add: ws' rw)
  show "ws_warnings (WorkerStore_onmessage \<lparr>data_id = mid, data_result = res\<rparr> ws) = ws_warnings ws"
    by (simp add: ws' rw)
  show "ws_posted (WorkerStore_onmessage \<lparr>data_id = mid, data_result = res\<rparr> ws) = ws_posted ws"
    by (simp add: ws' rw)
  show "ws_messageId (WorkerStore_onmessage \<lparr>data_id = mid, data_result = res\<rparr> ws) = ws_messageId ws"
    by (simp add: ws' rw)
  show "ws_events (WorkerStore_onmessage \<lparr>data_id = mid, data_result = res\<rparr> ws) =
           ws_events ws @ (if then_invalidate (ws_waiters ws ! p) then [''invalidate''] else [])"
    by (simp add: ws' rw)
qed

lemma onmessage_unmatched:
  "ws_messageQueue ws mid = None \<Longrightarrow>
   WorkerStore_onmessage \<lparr>data_id = mid, data_result = res\<rparr> ws =
     ws\<lparr>ws_warnings := ws_warnings ws @ [mid]\<rparr>"
  by (simp add: WorkerStore_onmessage_def)

lemma entries_pending_onmessage:
  assumes ep: "entries_pending ws"
  shows "entries_pending (WorkerStore_onmessage data ws)"
proof -
  obtain mid res where data: "data = \<lparr>data_id = mid, data_result = res\<rparr>" by (cases data) simp
  show ?thesis
  proof (cases "ws_messageQueue ws mid")
    case None
    from ep show ?thesis
      unfolding data onmessage_unmatched [OF None] by (simp add: entries_pending_def)
  next
    case (Some p)
    with ep have p: "p < length (ws_waiters ws)" and pend: "settled (ws_waiters ws ! p) = None"
      and inj: "\<And>mid'. ws_messageQueue ws mid' = Some p \<Longrightarrow> mid' = mid"
      unfolding entries_pending_def by blast+
    let ?ws' = "WorkerStore_onmessage \<lparr>data_id = mid, data_result = res\<rparr> ws"
    note q = onmessage_pending(2) [OF Some p pend, of res]
    note w = onmessage_pending(1) [OF Some p pend, of res]
    have "entries_pending ?ws'"
      unfolding entries_pending_def
    proof (intro allI impI)
      fix mid2 r assume a: "ws_messageQueue ?ws' mid2 = Some r"
      then have mid: "mid2 \<noteq> mid" and old: "ws_messageQueue ws mid2 = Some r"
        unfolding q by (auto split: if_splits)
      from ep old have r: "r < length (ws_waiters ws)" "settled (ws_waiters ws ! r) = None"
        and injr: "\<And>mid'. ws_messageQueue ws mid' = Some r \<Longrightarrow> mid' = mid2"
        unfolding entries_pending_def by blast+
      have "r \<noteq> p"
      proof
        assume "r = p"
        with old inj mid show False by blast
      qed
      moreover have "mid' = mid2" if "ws_messageQueue ?ws' mid' = Some r" for mid'
      proof -
        from that have "ws_messageQueue ws mid' = Some r" unfolding q by (auto split: if_splits)
        then show ?thesis by (rule injr)
      qed
      ultimately show "r < length (ws_waiters ?ws') \<and> settled (ws_waiters ?ws' ! r) = None \<and>
          (\<forall>mid'. ws_messageQueue ?ws' mid' = Some r \<longrightarrow> mid' = mid2)"
        using r by (simp add: w)
    qed
    then show ?thesis unfolding data .
  qed
qed

lemma entries_pending_call: "entries_pending ws \<Longrightarrow> entries_pending (WorkerStore_call c ws)"
  by (cases c) (simp_all add: entries_pending_get entries_pending_apply entries_pending_onmessage)

lemma entries_pending_calls: "entries_pending ws \<Longrightarrow> entries_pending (WorkerStore_calls cs ws)"
  unfolding WorkerStore_calls_def
  by (induction cs arbitrary: ws) (simp_all add: entries_pending_call)

lemma entries_pending_reached: "entries_pending (WorkerStore_calls cs WorkerStore_new)"
  by (rule entries_pending_calls [OF entries_pending_new])

lemma WorkerStore_calls_snoc:
  "WorkerStore_calls (cs @ [c]) ws = WorkerStore_call c (WorkerStore_calls cs ws)"
  by (simp add: WorkerStore_calls_def)

section \<open>The example inputs, evaluated\<close>

lemma Pointer_new_examples [simp]:
  "Pointer_new (Inl ''a'') = \<lparr>segments = [''a'']\<rparr>"
  "Pointer_new (Inl ''b'') = \<lparr>segments = [''b'']\<rparr>"
  "Pointer_new (Inl ''/a'') = \<lparr>segments = [''a'']\<rparr>"
  "Pointer_new (Inl ''/b'') = \<lparr>segments = [''b'']\<rparr>"
  "Pointer_new (Inl ''test'') = \<lparr>segments = [''test'']\<rparr>"
  by (simp_all add: Pointer_new_def)

lemma sub_path_eval [simp]:
  "sub_path ''a'' = \<lparr>path = ''/a'', state = JObj Map.empty, value' = None\<rparr>"
  "sub_path ''b'' = \<lparr>path = ''/b'', state = JObj Map.empty, value' = None\<rparr>"
  by (simp_all add: sub_path_def Store_path_def path_pointer_def isString_def Pointer_path_def
      Pointer_get_def Store_new_def)

lemma two_paths_store_eval:
  "two_paths_store =
     \<lparr>store_state = JObj [''a'' \<mapsto> JNum 1, ''b'' \<mapsto> JNum 2],
      store_changePaths =
        [(''/a'', \<lparr>callbacks = [\<lparr>callbackId = 0, callback = ''render''\<rparr>], previousValue = None\<rparr>),
         (''/b'', \<lparr>callbacks = [\<lparr>callbackId = 0, callback = ''render''\<rparr>], previousValue = None\<rparr>)],
      store_callbackId = 1\<rparr>"
  by (simp add: two_paths_store_def Store_apply_def Store_onChange_def Store_addOnChange_def Let_def
      store_of_def Store_new_def Patch_apply_def Store_get_def)

section \<open>C1: applying the undo operations restores the root\<close>

text \<open>
  C1, as stated, is false of the patch engine the specification describes: an \<open>Add\<close> whose
  ancestors are absent creates the intermediate containers, and its inverse, the \<open>Remove\<close>
  of the same address, leaves them behind. From the root \<open>{}\<close>, the batch
  \<open>[Add(/a/b, 1)]\<close> gives \<open>{a: {b: 1}}\<close> and the undo list \<open>[Remove(/a/b)]\<close>; applying
  that list gives \<open>{a: {}}\<close>, which is not \<open>{}\<close>.
\<close>

theorem Store_apply_undo_counterexample:
  "(let s = \<lparr>store_state = JObj Map.empty, store_changePaths = [], store_callbackId = 0\<rparr>
              :: (json, json option, string) Store;
        r1 = Store_apply Patch_apply Pointer_get [Add \<lparr>segments = [''a'', ''b'']\<rparr> (JNum 1)] None s;
        r2 = Store_apply Patch_apply Pointer_get (undo_of r1) None (store_of r1)
    in store_state (store_of r1) = JObj [''a'' \<mapsto> JObj [''b'' \<mapsto> JNum 1]] \<and>
       undo_of r1 = [Remove \<lparr>segments = [''a'', ''b'']\<rparr>] \<and>
       store_state (store_of r2) = JObj [''a'' \<mapsto> JObj Map.empty] \<and>
       store_state (store_of r2) \<noteq> store_state s)"
  by (simp add: Let_def Store_apply_def Patch_apply_def undo_of_def store_of_def new_container_def)

text \<open>
  C1, amended: for every root and every batch in which the parent address of each \<open>Add\<close>
  resolves when the \<open>Add\<close> is applied (no intermediate container is created), applying
  the undo operations returned by \<open>Store.apply\<close> to the root it left gives back the root
  before the batch, by deep value. The flags \<open>invalidate\<close> of the two calls and the
  pointer resolution used for change detection are arbitrary.
\<close>

theorem Store_apply_undo_round_trip:
  assumes "adds_into_existing B (store_state s)"
  shows "(let r1 = Store_apply Patch_apply pg B iv s;
              r2 = Store_apply Patch_apply pg (undo_of r1) iv' (store_of r1)
          in store_state (store_of r2) = store_state s)"
proof -
  have "object (Patch_apply (undoOperations (Patch_apply B (store_state s)))
           (object (Patch_apply B (store_state s)))) = store_state s"
    using patch_loop_undo [OF assms] by (simp add: Patch_apply_def case_prod_beta)
  then show ?thesis
    by (simp add: Let_def Store_apply_state Store_apply_undo)
qed

theorem Store_apply_undo_round_trip_witness:
  "adds_into_existing batch_abc doc_abc \<and>
   (let s = \<lparr>store_state = doc_abc, store_changePaths = [], store_callbackId = 0\<rparr>
              :: (json, json option, string) Store;
        r1 = Store_apply Patch_apply Pointer_get batch_abc (Some True) s;
        r2 = Store_apply Patch_apply Pointer_get (undo_of r1) None (store_of r1)
    in undo_of r1 =
         [Add \<lparr>segments = [''l'', ''0'']\<rparr> (JNum 1),
          Replace \<lparr>segments = [''a'', ''c'']\<rparr> (JNum 2),
          Remove \<lparr>segments = [''l'', ''2'']\<rparr>,
          Replace \<lparr>segments = [''a'', ''b'']\<rparr> (JNum 1)] \<and>
       store_state (store_of r2) = doc_abc)"
proof -
  have h: "adds_into_existing batch_abc doc_abc"
    by (simp add: batch_abc_def doc_abc_def)
  have u: "undoOperations (Patch_apply batch_abc doc_abc) =
      [Add \<lparr>segments = [''l'', ''0'']\<rparr> (JNum 1),
       Replace \<lparr>segments = [''a'', ''c'']\<rparr> (JNum 2),
       Remove \<lparr>segments = [''l'', ''2'']\<rparr>,
       Replace \<lparr>segments = [''a'', ''b'']\<rparr> (JNum 1)]"
    by (simp add: Patch_apply_def batch_abc_def doc_abc_def)
  show ?thesis
    using h u
      Store_apply_undo_round_trip [of batch_abc
        "\<lparr>store_state = doc_abc, store_changePaths = [], store_callbackId = 0\<rparr>"
        Pointer_get "Some True" None]
    by (simp add: Let_def Store_apply_undo)
qed

section \<open>C2: one call per subscriber and invalidation\<close>

text \<open>
  C2: during one \<open>invalidate()\<close>, at most one call is made under each subscriber id,
  whatever the table holds and however many of its addresses changed. In a well-formed
  store, a callback registered under an address whose value changed is called exactly
  once, also when it is registered under several changed addresses.
\<close>

theorem Store_invalidate_single_fire:
  "length (calls_of i (snd (Store_invalidate pg s))) \<le> 1 \<and>
   (well_formed s \<and> (p, v) \<in> set (store_changePaths s) \<and>
    previousValue v \<noteq> pg (Pointer_new (Inl p)) (store_state s) \<and> c \<in> set (callbacks v) \<longrightarrow>
      calls_of (callbackId c) (snd (Store_invalidate pg s)) = [callback c])"
  using invalidate_at_most_once [of i pg s] invalidate_fires_changed [of s p v pg c] by blast

theorem Store_invalidate_single_fire_witness:
  "well_formed two_paths_store \<and>
   (''/a'', \<lparr>callbacks = [\<lparr>callbackId = 0, callback = ''render''\<rparr>], previousValue = None\<rparr>)
     \<in> set (store_changePaths two_paths_store) \<and>
   (''/b'', \<lparr>callbacks = [\<lparr>callbackId = 0, callback = ''render''\<rparr>], previousValue = None\<rparr>)
     \<in> set (store_changePaths two_paths_store) \<and>
   None \<noteq> Pointer_get (Pointer_new (Inl ''/a'')) (store_state two_paths_store) \<and>
   None \<noteq> Pointer_get (Pointer_new (Inl ''/b'')) (store_state two_paths_store) \<and>
   length (calls_of 0 (snd (Store_invalidate Pointer_get two_paths_store))) \<le> 1 \<and>
   calls_of 0 (snd (Store_invalidate Pointer_get two_paths_store)) = [''render''] \<and>
   snd (Store_invalidate Pointer_get two_paths_store) =
     [Called \<lparr>callbackId = 0, callback = ''render''\<rparr>, Emitted ''invalidate'']"
proof -
  have run: "snd (Store_invalidate Pointer_get two_paths_store) =
     [Called \<lparr>callbackId = 0, callback = ''render''\<rparr>, Emitted ''invalidate'']"
    by (simp add: two_paths_store_eval Store_invalidate_def Store_runOnChanges_def Let_def
        Pointer_get_def)
  show ?thesis
    using run Store_invalidate_single_fire [of 0 Pointer_get two_paths_store "''/a''"
      "\<lparr>callbacks = [\<lparr>callbackId = 0, callback = ''render''\<rparr>], previousValue = None\<rparr>"
      "\<lparr>callbackId = 0, callback = ''render''\<rparr>"]
    by (simp add: two_paths_store_eval well_formed_def all_callbacks_def Pointer_get_def)
qed

section \<open>C3: remove unsubscribes, and is idempotent\<close>

text \<open>
  C3: take any store reached from a new one, subscribe with \<open>onChange\<close>, let any calls
  follow, and call \<open>remove()\<close> on the handle. Then whatever calls come after (patches with
  invalidation, invalidations, other subscriptions and removals), no callback is called
  under the subscriber id of the handle; and a second \<open>remove()\<close> leaves the store as it is.
  (A callback function subscribed again later gets a new subscriber id; that later
  subscription is another one.)
\<close>

theorem remove_unsubscribes:
  "(let s0 = fst (Store_calls pa pg before (Store_new e));
        r = Store_onChange paths cb s0;
        h = fst r;
        s2 = fst (Store_calls pa pg between (snd r));
        s3 = handle_remove h s2
    in calls_of (handle_callbackId h) (snd (Store_calls pa pg after s3)) = [] \<and>
       handle_remove h s3 = s3)"
proof -
  define s0 where "s0 = fst (Store_calls pa pg before (Store_new e))"
  define h where "h = fst (Store_onChange paths cb s0)"
  define s2 where "s2 = fst (Store_calls pa pg between (snd (Store_onChange paths cb s0)))"
  have wf: "well_formed s0" unfolding s0_def by (rule well_formed_calls [OF well_formed_new])
  have id: "handle_callbackId h = store_callbackId s0" unfolding h_def by (simp add: Store_onChange_parts)
  have "subscribed_within (handle_callbackId h) (path ` set (handle_paths h)) (snd (Store_onChange paths cb s0))"
    unfolding id unfolding h_def by (rule subscribed_within_after_onChange [OF wf])
  then have "subscribed_within (handle_callbackId h) (path ` set (handle_paths h)) s2"
    unfolding s2_def by (rule subscribed_within_calls)
  then have "unsubscribed (handle_callbackId h) (handle_remove h s2)"
    by (rule unsubscribed_after_remove)
  then have "calls_of (handle_callbackId h) (snd (Store_calls pa pg after (handle_remove h s2))) = []"
    by (rule unsubscribed_calls)
  then show ?thesis
    unfolding Let_def s0_def [symmetric] h_def [symmetric] s2_def [symmetric]
    by (simp add: handle_remove_idem)
qed

theorem remove_unsubscribes_witness:
  "(let s0 = fst (Store_calls Patch_apply Pointer_get [] (Store_new (JObj Map.empty)));
        r = Store_onChange (Inl (sub_path ''a'')) ''render'' s0;
        h = fst r;
        between = Store_calls Patch_apply Pointer_get
                    [Apply [Add \<lparr>segments = [''a'']\<rparr> (JNum 1)] (Some True)] (snd r);
        s3 = handle_remove h (fst between);
        after = Store_calls Patch_apply Pointer_get
                  [Apply [Replace \<lparr>segments = [''a'']\<rparr> (JNum 2)] (Some True), Invalidate] s3
    in snd between = [Called \<lparr>callbackId = 0, callback = ''render''\<rparr>, Emitted ''invalidate''] \<and>
       store_state (fst after) = JObj [''a'' \<mapsto> JNum 2] \<and>
       snd after = [Emitted ''invalidate'', Emitted ''invalidate''] \<and>
       calls_of (handle_callbackId h) (snd after) = [] \<and>
       handle_remove h s3 = s3)"
  using remove_unsubscribes [of Patch_apply Pointer_get "[]" "JObj Map.empty"
      "Inl (sub_path ''a'')" "''render''"
      "[Apply [Add \<lparr>segments = [''a'']\<rparr> (JNum 1)] (Some True)]"
      "[Apply [Replace \<lparr>segments = [''a'']\<rparr> (JNum 2)] (Some True), Invalidate]"]
  by (simp add: Let_def Store_new_def Store_onChange_def Store_addOnChange_def Store_get_def
      Store_apply_def Patch_apply_def Store_invalidate_def Store_runOnChanges_def Pointer_get_def
      handle_remove_def remove_path_def)

section \<open>C4: change detection compares references\<close>

text \<open>
  C4: in a well-formed store over runtime values, let the baseline of a tracked address
  be a reference \<open>a\<close> and let the address now resolve to a reference \<open>b\<close>. If \<open>b\<close> is
  another reference than \<open>a\<close>, then even when the two objects are deep-equal the
  address counts as changed: its baseline becomes \<open>b\<close> and each of its callbacks is
  called. If \<open>b\<close> is the same reference, the address counts as unchanged: its entry stays
  as it is, and a callback of the address gets no call, unless its subscriber id also
  stands under an address whose value did change.
\<close>

theorem invalidate_compares_references:
  assumes "well_formed s"
    and "(p, v) \<in> set (store_changePaths s)"
    and "previousValue v = VRef a"
    and "pg (Pointer_new (Inl p)) (store_state s) = VRef b"
  shows "(let r = Store_invalidate pg s
          in (a \<noteq> b \<and> deep_equal n ks (heap (store_state s)) (VRef a) (VRef b) \<longrightarrow>
                map_of (store_changePaths (fst r)) p = Some \<lparr>callbacks = callbacks v, previousValue = VRef b\<rparr> \<and>
                list_all (\<lambda>c. calls_of (callbackId c) (snd r) = [callback c]) (callbacks v)) \<and>
             (a = b \<longrightarrow>
                map_of (store_changePaths (fst r)) p = Some v \<and>
                list_all (\<lambda>c.
                    list_all (\<lambda>e. previousValue (snd e) \<noteq> pg (Pointer_new (Inl (fst e))) (store_state s) \<longrightarrow>
                                list_all (\<lambda>d. callbackId d \<noteq> callbackId c) (callbacks (snd e)))
                      (store_changePaths s) \<longrightarrow>
                    calls_of (callbackId c) (snd r) = [])
                  (callbacks v)))"
proof -
  have d: "distinct (map fst (store_changePaths s))" by (rule well_formed_distinct [OF assms(1)])
  with assms(2) have m: "map_of (store_changePaths s) p = Some v" by simp
  have fire: "calls_of (callbackId c) (snd (Store_invalidate pg s)) = [callback c]"
    if "a \<noteq> b" "c \<in> set (callbacks v)" for c
    using that assms by (intro invalidate_fires_changed [of s p v]) simp_all
  have silent: "calls_of (callbackId c) (snd (Store_invalidate pg s)) = []"
    if "list_all (\<lambda>e. previousValue (snd e) \<noteq> pg (Pointer_new (Inl (fst e))) (store_state s) \<longrightarrow>
                                list_all (\<lambda>d. callbackId d \<noteq> callbackId c) (callbacks (snd e)))
                      (store_changePaths s)" for c
    using that by (intro invalidate_silent_unchanged) (auto simp: list_all_iff)
  have 1: "a \<noteq> b \<and> deep_equal n ks (heap (store_state s)) (VRef a) (VRef b) \<longrightarrow>
        map_of (store_changePaths (fst (Store_invalidate pg s))) p =
          Some \<lparr>callbacks = callbacks v, previousValue = VRef b\<rparr> \<and>
        list_all (\<lambda>c. calls_of (callbackId c) (snd (Store_invalidate pg s)) = [callback c]) (callbacks v)"
    unfolding Store_invalidate_map_of [OF d] m list_all_iff
    using assms(3,4) fire by simp
  have 2: "a = b \<longrightarrow> map_of (store_changePaths (fst (Store_invalidate pg s))) p = Some v"
    unfolding Store_invalidate_map_of [OF d] m
    using assms(3,4) by simp
  have 3: "list_all (\<lambda>c.
                    list_all (\<lambda>e. previousValue (snd e) \<noteq> pg (Pointer_new (Inl (fst e))) (store_state s) \<longrightarrow>
                                list_all (\<lambda>d. callbackId d \<noteq> callbackId c) (callbacks (snd e)))
                      (store_changePaths s) \<longrightarrow>
                    calls_of (callbackId c) (snd (Store_invalidate pg s)) = [])
                  (callbacks v)"
    unfolding list_all_iff [of _ "callbacks v"] using silent by blast
  from 1 2 3 show ?thesis unfolding Let_def by blast
qed

theorem invalidate_compares_references_witness:
  "well_formed twin_store \<and>
   (''/a'', \<lparr>callbacks = [\<lparr>callbackId = 0, callback = ''render''\<rparr>], previousValue = VRef 1\<rparr>)
     \<in> set (store_changePaths twin_store) \<and>
   Pointer_get_ref (Pointer_new (Inl ''/a'')) (store_state twin_store) = VRef 2 \<and>
   (1 :: nat) \<noteq> 2 \<and>
   heap (store_state twin_store) 1 = heap (store_state twin_store) 2 \<and>
   deep_equal 1 [''x''] (heap (store_state twin_store)) (VRef 1) (VRef 2) \<and>
   map_of (store_changePaths (fst (Store_invalidate Pointer_get_ref twin_store))) ''/a'' =
     Some \<lparr>callbacks = [\<lparr>callbackId = 0, callback = ''render''\<rparr>], previousValue = VRef 2\<rparr> \<and>
   calls_of 0 (snd (Store_invalidate Pointer_get_ref twin_store)) = [''render''] \<and>
   snd (Store_invalidate Pointer_get_ref twin_store) =
     [Called \<lparr>callbackId = 0, callback = ''render''\<rparr>, Emitted ''invalidate''] \<and>
   (let same = fst (Store_invalidate Pointer_get_ref twin_store)
    in well_formed same \<and>
       store_changePaths same =
         [(''/a'', \<lparr>callbacks = [\<lparr>callbackId = 0, callback = ''render''\<rparr>], previousValue = VRef 2\<rparr>)] \<and>
       Pointer_get_ref (Pointer_new (Inl ''/a'')) (store_state same) = VRef 2 \<and>
       map_of (store_changePaths (fst (Store_invalidate Pointer_get_ref same))) ''/a'' =
         Some \<lparr>callbacks = [\<lparr>callbackId = 0, callback = ''render''\<rparr>], previousValue = VRef 2\<rparr> \<and>
       calls_of 0 (snd (Store_invalidate Pointer_get_ref same)) = [] \<and>
       snd (Store_invalidate Pointer_get_ref same) = [Emitted ''invalidate''])"
proof -
  define same where "same = fst (Store_invalidate Pointer_get_ref twin_store)"
  have same: "same = twin_store\<lparr>store_changePaths :=
      [(''/a'', \<lparr>callbacks = [\<lparr>callbackId = 0, callback = ''render''\<rparr>], previousValue = VRef 2\<rparr>)]\<rparr>"
    unfolding same_def
    by (simp add: twin_store_def twin_state_def Pointer_get_ref_def Let_def Store_invalidate_def
        Store_runOnChanges_def)
  from invalidate_compares_references [of twin_store "''/a''"
      "\<lparr>callbacks = [\<lparr>callbackId = 0, callback = ''render''\<rparr>], previousValue = VRef 1\<rparr>"
      1 Pointer_get_ref 2 1 "[''x'']"]
  have one: "well_formed twin_store \<and>
   (''/a'', \<lparr>callbacks = [\<lparr>callbackId = 0, callback = ''render''\<rparr>], previousValue = VRef 1\<rparr>)
     \<in> set (store_changePaths twin_store) \<and>
   Pointer_get_ref (Pointer_new (Inl ''/a'')) (store_state twin_store) = VRef 2 \<and>
   (1 :: nat) \<noteq> 2 \<and>
   heap (store_state twin_store) 1 = heap (store_state twin_store) 2 \<and>
   deep_equal 1 [''x''] (heap (store_state twin_store)) (VRef 1) (VRef 2) \<and>
   map_of (store_changePaths (fst (Store_invalidate Pointer_get_ref twin_store))) ''/a'' =
     Some \<lparr>callbacks = [\<lparr>callbackId = 0, callback = ''render''\<rparr>], previousValue = VRef 2\<rparr> \<and>
   calls_of 0 (snd (Store_invalidate Pointer_get_ref twin_store)) = [''render''] \<and>
   snd (Store_invalidate Pointer_get_ref twin_store) =
     [Called \<lparr>callbackId = 0, callback = ''render''\<rparr>, Emitted ''invalidate'']"
    by (simp add: twin_store_def twin_state_def well_formed_def all_callbacks_def Pointer_get_ref_def
      Let_def Store_invalidate_def Store_runOnChanges_def)
  from invalidate_compares_references [of same "''/a''"
      "\<lparr>callbacks = [\<lparr>callbackId = 0, callback = ''render''\<rparr>], previousValue = VRef 2\<rparr>"
      2 Pointer_get_ref 2 1 "[''x'']"]
  have two: "well_formed same \<and>
       store_changePaths same =
         [(''/a'', \<lparr>callbacks = [\<lparr>callbackId = 0, callback = ''render''\<rparr>], previousValue = VRef 2\<rparr>)] \<and>
       Pointer_get_ref (Pointer_new (Inl ''/a'')) (store_state same) = VRef 2 \<and>
       map_of (store_changePaths (fst (Store_invalidate Pointer_get_ref same))) ''/a'' =
         Some \<lparr>callbacks = [\<lparr>callbackId = 0, callback = ''render''\<rparr>], previousValue = VRef 2\<rparr> \<and>
       calls_of 0 (snd (Store_invalidate Pointer_get_ref same)) = [] \<and>
       snd (Store_invalidate Pointer_get_ref same) = [Emitted ''invalidate'']"
    unfolding same
    by (simp add: twin_store_def twin_state_def well_formed_def all_callbacks_def Pointer_get_ref_def
      Let_def Store_invalidate_def Store_runOnChanges_def)
  from one two show ?thesis unfolding Let_def same_def by blast
qed

section \<open>C5: apply without invalidation\<close>

text \<open>
  C5: \<open>apply(operations)\<close> with \<open>invalidate\<close> omitted, or passed as \<open>false\<close>, calls no
  callback and emits no event; it returns the undo operations of the patch, stores the
  root of the patch result, and leaves the subscription table and the subscriber id
  counter as they are.
\<close>

theorem Store_apply_without_invalidate:
  "(let r = Store_apply pa pg ops None s
    in effects_of r = [] \<and>
       undo_of r = undoOperations (pa ops (store_state s)) \<and>
       store_of r = s\<lparr>store_state := object (pa ops (store_state s))\<rparr> \<and>
       store_state (store_of r) = object (pa ops (store_state s)) \<and>
       store_changePaths (store_of r) = store_changePaths s \<and>
       store_callbackId (store_of r) = store_callbackId s \<and>
       Store_apply pa pg ops (Some False) s = r)"
  by (simp add: Store_apply_def Let_def effects_of_def undo_of_def store_of_def)

theorem Store_apply_without_invalidate_witness:
  "(let r = Store_apply Patch_apply Pointer_get [Replace \<lparr>segments = [''a'']\<rparr> (JNum 5)] None two_paths_store
    in effects_of r = [] \<and>
       undo_of r = [Replace \<lparr>segments = [''a'']\<rparr> (JNum 1)] \<and>
       store_state (store_of r) = JObj [''b'' \<mapsto> JNum 2, ''a'' \<mapsto> JNum 5] \<and>
       store_changePaths (store_of r) = store_changePaths two_paths_store \<and>
       store_callbackId (store_of r) = store_callbackId two_paths_store)"
  using Store_apply_without_invalidate [of Patch_apply Pointer_get
      "[Replace \<lparr>segments = [''a'']\<rparr> (JNum 5)]" two_paths_store]
  by (simp add: Let_def two_paths_store_eval Patch_apply_def Store_apply_def effects_of_def
      undo_of_def store_of_def)

section \<open>C6: invalidate emits one event, last\<close>

text \<open>
  C6: the effects of \<open>invalidate()\<close> are the calls of the change-detection pass followed
  by one event of type \<open>invalidate\<close>; exactly one event is emitted, whether or not any
  address changed.
\<close>

theorem Store_invalidate_emits_once:
  "(let effects = snd (Store_invalidate pg s)
    in effects = map Called (snd (Store_runOnChanges pg s)) @ [Emitted ''invalidate''] \<and>
       emitted effects = [''invalidate''])"
  by (simp add: Let_def Store_invalidate_def case_prod_beta emitted_fired)

theorem Store_invalidate_emits_once_witness:
  "snd (Store_invalidate Pointer_get (fst (Store_invalidate Pointer_get two_paths_store))) =
     [Emitted ''invalidate''] \<and>
   emitted (snd (Store_invalidate Pointer_get (fst (Store_invalidate Pointer_get two_paths_store)))) =
     [''invalidate''] \<and>
   emitted (snd (Store_invalidate Pointer_get two_paths_store)) = [''invalidate'']"
  using Store_invalidate_emits_once [of Pointer_get two_paths_store]
    Store_invalidate_emits_once [of Pointer_get "fst (Store_invalidate Pointer_get two_paths_store)"]
  by (simp add: Let_def two_paths_store_eval Store_invalidate_def Store_runOnChanges_def Pointer_get_def)

section \<open>C7: what onChange registers\<close>

text \<open>
  C7, as stated, is false: the baseline \<open>onChange\<close> records is not the value of the
  address in the live root. For an address that is not tracked yet, \<open>_addOnChange\<close> records
  \<open>this.get(path)\<close>, which is \<open>path.value\<close>, the value captured when the \<open>Path\<close> was built;
  for an address that is already tracked it records nothing. Below, a path to \<open>/a\<close> is
  built on the empty root, the root is patched to \<open>{a: 1}\<close>, and then the path is
  subscribed: the baseline is Undefined while \<open>/a\<close> is \<open>1\<close>. A second subscription, with
  a path built just before it (its value is \<open>1\<close>), leaves the baseline Undefined.
\<close>

theorem Store_onChange_baseline_counterexample:
  "(let s0 = Store_new (JObj Map.empty) :: (json, json option, string) Store;
        p = Store_path Pointer_get (Inl ''a'') [] s0;
        s1 = store_of (Store_apply Patch_apply Pointer_get [Add \<lparr>segments = [''a'']\<rparr> (JNum 1)] None s0);
        s2 = snd (Store_onChange (Inl p) ''render'' s1);
        fresh = Store_path Pointer_get (Inl ''a'') [] s2;
        s3 = snd (Store_onChange (Inl fresh) ''log'' s2)
    in p = \<lparr>path = ''/a'', state = JObj Map.empty, value' = None\<rparr> \<and>
       Pointer_get (Pointer_new (Inl ''/a'')) (store_state s1) = Some (JNum 1) \<and>
       store_changePaths s2 =
         [(''/a'', \<lparr>callbacks = [\<lparr>callbackId = 0, callback = ''render''\<rparr>], previousValue = None\<rparr>)] \<and>
       map_option previousValue (map_of (store_changePaths s2) ''/a'') \<noteq>
         Some (Pointer_get (Pointer_new (Inl ''/a'')) (store_state s2)) \<and>
       value' fresh = Some (JNum 1) \<and>
       store_changePaths s3 =
         [(''/a'', \<lparr>callbacks = [\<lparr>callbackId = 0, callback = ''render''\<rparr>, \<lparr>callbackId = 1, callback = ''log''\<rparr>],
                   previousValue = None\<rparr>)] \<and>
       map_option previousValue (map_of (store_changePaths s3) ''/a'') \<noteq>
         Some (Pointer_get (Pointer_new (Inl ''/a'')) (store_state s3)))"
  by (simp add: Let_def Store_new_def Store_path_def path_pointer_def isString_def
      Pointer_path_def Pointer_get_def Store_onChange_def Store_addOnChange_def Store_get_def
      Store_apply_def Patch_apply_def store_of_def)

text \<open>
  C7, amended: in a well-formed store, \<open>onChange(paths, callback)\<close> registers the callback
  under one subscriber id, the value of \<open>_callbackId\<close> before the call, which no callback
  of the table carries and which the next call will not get, since the counter goes up by
  one; the id is shared across every address of \<open>paths\<close>. The entry of each address is
  \<open>registered_entry\<close>: an address that is already tracked keeps its baseline, and a new
  address gets as baseline the value carried by the first path given for it. The root is
  not touched and the store stays well formed.
\<close>

theorem Store_onChange_registers:
  assumes "well_formed s"
  shows "(let r = Store_onChange paths cb s; h = fst r; s' = snd r
          in handle_paths h = (case paths of Inl p \<Rightarrow> [p] | Inr ps \<Rightarrow> ps) \<and>
             handle_callbackId h = store_callbackId s \<and>
             list_all (\<lambda>c. callbackId c \<noteq> store_callbackId s) (all_callbacks s) \<and>
             store_callbackId s' = store_callbackId s + 1 \<and>
             store_state s' = store_state s \<and>
             well_formed s' \<and>
             (\<forall>k. map_of (store_changePaths s') k =
                    registered_entry (handle_paths h) cb (store_callbackId s)
                      (map_of (store_changePaths s) k) k))"
proof -
  have fresh: "list_all (\<lambda>c. callbackId c \<noteq> store_callbackId s) (all_callbacks s)"
    unfolding list_all_iff set_all_callbacks
    using well_formed_below [OF assms] by fastforce
  show ?thesis
    unfolding Let_def
    using fresh well_formed_onChange [OF assms, of paths cb]
    by (simp add: Store_onChange_frame(1,2) Store_onChange_parts(1))
      (simp add: Store_onChange_parts(2) fold_addOnChange_map_of)
qed

theorem Store_onChange_registers_witness:
  "well_formed two_paths_store \<and>
   (let r = Store_onChange
              (Inr [Store_path Pointer_get (Inl ''a'') [] two_paths_store,
                    Store_path Pointer_get (Inl ''c'') [] two_paths_store])
              ''log'' two_paths_store
    in value' (Store_path Pointer_get (Inl ''a'') [] two_paths_store) = Some (JNum 1) \<and>
       handle_callbackId (fst r) = 1 \<and>
       store_callbackId (snd r) = 2 \<and>
       well_formed (snd r) \<and>
       store_changePaths (snd r) =
         [(''/a'', \<lparr>callbacks = [\<lparr>callbackId = 0, callback = ''render''\<rparr>, \<lparr>callbackId = 1, callback = ''log''\<rparr>],
                   previousValue = None\<rparr>),
          (''/b'', \<lparr>callbacks = [\<lparr>callbackId = 0, callback = ''render''\<rparr>], previousValue = None\<rparr>),
          (''/c'', \<lparr>callbacks = [\<lparr>callbackId = 1, callback = ''log''\<rparr>], previousValue = None\<rparr>)])"
proof -
  have wf: "well_formed two_paths_store"
    by (simp add: two_paths_store_eval well_formed_def all_callbacks_def)
  have c: "Pointer_new (Inl ''c'') = \<lparr>segments = [''c'']\<rparr>" by (simp add: Pointer_new_def)
  show ?thesis
    using wf Store_onChange_registers [OF wf, of
        "Inr [Store_path Pointer_get (Inl ''a'') [] two_paths_store,
              Store_path Pointer_get (Inl ''c'') [] two_paths_store]" "''log''"]
    by (simp add: Let_def two_paths_store_eval Store_path_def path_pointer_def isString_def c
        Pointer_path_def Pointer_get_def Store_onChange_def Store_addOnChange_def Store_get_def)
qed

section \<open>C8: responses are matched by message identifier\<close>

text \<open>
  C8: take any worker store reached from a new one by \<open>get\<close>, \<open>apply\<close> and messages of
  the worker, and let a response arrive. If its identifier has an entry in the table,
  the entry is a pending promise that no other identifier shares; that promise is settled
  with the result of the response and every other promise stays as it was; the entry
  leaves the table and the other entries stay; nothing is reported; and a second response
  with the same identifier is reported and dropped. If its identifier has no entry, the
  identifier is reported and nothing else changes.
\<close>

theorem onmessage_correlates:
  "(let ws = WorkerStore_calls cs WorkerStore_new;
        ws' = WorkerStore_onmessage \<lparr>data_id = mid, data_result = res\<rparr> ws
    in case ws_messageQueue ws mid of
         Some p \<Rightarrow>
           p < length (ws_waiters ws) \<and> settled (ws_waiters ws ! p) = None \<and>
           (\<forall>mid'. ws_messageQueue ws mid' = Some p \<longrightarrow> mid' = mid) \<and>
           ws_waiters ws' = (ws_waiters ws)[p := (ws_waiters ws ! p)\<lparr>settled := Some res\<rparr>] \<and>
           ws_messageQueue ws' = (ws_messageQueue ws)(mid := None) \<and>
           ws_warnings ws' = ws_warnings ws \<and>
           WorkerStore_onmessage \<lparr>data_id = mid, data_result = res'\<rparr> ws' =
             ws'\<lparr>ws_warnings := ws_warnings ws' @ [mid]\<rparr>
       | None \<Rightarrow> ws' = ws\<lparr>ws_warnings := ws_warnings ws @ [mid]\<rparr>)"
proof -
  define ws where "ws = WorkerStore_calls cs WorkerStore_new"
  define ws' where "ws' = WorkerStore_onmessage \<lparr>data_id = mid, data_result = res\<rparr> ws"
  have ep: "entries_pending ws" unfolding ws_def by (rule entries_pending_reached)
  have "case ws_messageQueue ws mid of
         Some p \<Rightarrow>
           p < length (ws_waiters ws) \<and> settled (ws_waiters ws ! p) = None \<and>
           (\<forall>mid'. ws_messageQueue ws mid' = Some p \<longrightarrow> mid' = mid) \<and>
           ws_waiters ws' = (ws_waiters ws)[p := (ws_waiters ws ! p)\<lparr>settled := Some res\<rparr>] \<and>
           ws_messageQueue ws' = (ws_messageQueue ws)(mid := None) \<and>
           ws_warnings ws' = ws_warnings ws \<and>
           WorkerStore_onmessage \<lparr>data_id = mid, data_result = res'\<rparr> ws' =
             ws'\<lparr>ws_warnings := ws_warnings ws' @ [mid]\<rparr>
       | None \<Rightarrow> ws' = ws\<lparr>ws_warnings := ws_warnings ws @ [mid]\<rparr>"
  proof (cases "ws_messageQueue ws mid")
    case None
    then show ?thesis unfolding ws'_def by (simp add: onmessage_unmatched)
  next
    case (Some p)
    with ep have p: "p < length (ws_waiters ws)" and pend: "settled (ws_waiters ws ! p) = None"
      and inj: "\<forall>mid'. ws_messageQueue ws mid' = Some p \<longrightarrow> mid' = mid"
      unfolding entries_pending_def by blast+
    note om = onmessage_pending [OF Some p pend, of res, folded ws'_def]
    have gone: "ws_messageQueue ws' mid = None" by (simp add: om(2))
    have again: "WorkerStore_onmessage \<lparr>data_id = mid, data_result = res'\<rparr> ws' =
             ws'\<lparr>ws_warnings := ws_warnings ws' @ [mid]\<rparr>"
      by (rule onmessage_unmatched [OF gone])
    from p pend inj om(1) om(2) om(3) again show ?thesis by (simp add: Some)
  qed
  then show ?thesis unfolding Let_def ws_def ws'_def .
qed

theorem onmessage_correlates_witness:
  "(let ws2 = WorkerStore_calls
                [ApplyOps [Replace \<lparr>segments = [''test'']\<rparr> (JStr ''test'')] None,
                 Get \<lparr>path = ''/test'', state = JObj Map.empty, value' = JArr []\<rparr>] WorkerStore_new;
        ws3 = WorkerStore_onmessage \<lparr>data_id = 2, data_result = JStr ''test''\<rparr> ws2
    in ws_messageQueue ws2 1 = Some 0 \<and>
       ws_messageQueue ws2 2 = Some 1 \<and>
       map settled (ws_waiters ws2) = [None, None] \<and>
       map settled (ws_waiters ws3) = [None, Some (JStr ''test'')] \<and>
       ws_messageQueue ws3 2 = None \<and>
       ws_messageQueue ws3 1 = Some 0 \<and>
       ws_warnings ws3 = [] \<and>
       WorkerStore_onmessage \<lparr>data_id = 2, data_result = JNull\<rparr> ws3 = ws3\<lparr>ws_warnings := [2]\<rparr> \<and>
       ws_messageQueue ws3 7 = None \<and>
       WorkerStore_onmessage \<lparr>data_id = 7, data_result = JNull\<rparr> ws3 = ws3\<lparr>ws_warnings := [7]\<rparr>)"
proof -
  define cs where "cs =
     [ApplyOps [Replace \<lparr>segments = [''test'']\<rparr> (JStr ''test'')] None,
      Get \<lparr>path = ''/test'', state = JObj Map.empty, value' = JArr []\<rparr>]"
  define ws2 where "ws2 = WorkerStore_calls cs WorkerStore_new"
  have q: "ws_messageQueue ws2 = [1 \<mapsto> 0, 2 \<mapsto> 1]"
    and w: "ws_waiters ws2 = [\<lparr>then_invalidate = False, settled = None\<rparr>, \<lparr>then_invalidate = False, settled = None\<rparr>]"
    and wn: "ws_warnings ws2 = []"
    unfolding ws2_def cs_def
    by (simp_all add: WorkerStore_calls_def WorkerStore_get_parts WorkerStore_apply_parts WorkerStore_new_def)
  define ws3 where "ws3 = WorkerStore_onmessage \<lparr>data_id = 2, data_result = JStr ''test''\<rparr> ws2"
  have ws3: "ws3 = WorkerStore_calls (cs @ [Message \<lparr>data_id = 2, data_result = JStr ''test''\<rparr>]) WorkerStore_new"
    unfolding ws3_def ws2_def by (simp add: WorkerStore_calls_snoc)
  from onmessage_correlates [of cs 2 "JStr ''test''" JNull]
    onmessage_correlates [of "cs @ [Message \<lparr>data_id = 2, data_result = JStr ''test''\<rparr>]" 7 JNull JNull]
  have "ws_messageQueue ws2 1 = Some 0 \<and>
       ws_messageQueue ws2 2 = Some 1 \<and>
       map settled (ws_waiters ws2) = [None, None] \<and>
       map settled (ws_waiters ws3) = [None, Some (JStr ''test'')] \<and>
       ws_messageQueue ws3 2 = None \<and>
       ws_messageQueue ws3 1 = Some 0 \<and>
       ws_warnings ws3 = [] \<and>
       WorkerStore_onmessage \<lparr>data_id = 2, data_result = JNull\<rparr> ws3 = ws3\<lparr>ws_warnings := [2]\<rparr> \<and>
       ws_messageQueue ws3 7 = None \<and>
       WorkerStore_onmessage \<lparr>data_id = 7, data_result = JNull\<rparr> ws3 = ws3\<lparr>ws_warnings := [7]\<rparr>"
    unfolding ws3 [symmetric] ws2_def [symmetric] Let_def
    unfolding ws3_def [symmetric]
    by (simp add: q w wn)
  then show ?thesis unfolding Let_def ws3_def ws2_def cs_def .
qed

section \<open>C9: the two revisions of \<open>WorkerStore.apply\<close>\<close>

text \<open>
  C9: the stub revision of \<open>apply\<close> posts nothing, files nothing, emits nothing and returns
  a promise settled with the empty object, whatever the operations. The proxying revision
  posts one \<open>apply\<close> message under the next identifier, its operations carrying the
  string of their address, and returns a pending promise filed under that identifier;
  nothing is emitted until the response with that identifier arrives, which settles the
  promise with its result after \<open>invalidate\<close> has run when the flag was set. So the two
  revisions differ in what they post.
\<close>

theorem apply_revisions_differ:
  "(let stub = WorkerStore_apply_stub ops iv ws;
        proxy = WorkerStore_apply ops iv ws;
        mid = ws_messageId ws + 1;
        sent = \<lparr>msg_id = mid, msg_type = ''apply'',
                msg_payload = PayloadOperations (map (map_operation Pointer_path) ops)\<rparr>;
        answered = WorkerStore_onmessage \<lparr>data_id = mid, data_result = res\<rparr> (snd proxy)
    in ws_posted (snd stub) = ws_posted ws \<and>
       ws_messageId (snd stub) = ws_messageId ws \<and>
       ws_messageQueue (snd stub) = ws_messageQueue ws \<and>
       ws_events (snd stub) = ws_events ws \<and>
       settled (ws_waiters (snd stub) ! fst stub) = Some (JObj Map.empty) \<and>
       ws_posted (snd proxy) = ws_posted ws @ [sent] \<and>
       ws_messageQueue (snd proxy) mid = Some (fst proxy) \<and>
       settled (ws_waiters (snd proxy) ! fst proxy) = None \<and>
       ws_events (snd proxy) = ws_events ws \<and>
       settled (ws_waiters answered ! fst proxy) = Some res \<and>
       ws_events answered = ws_events ws @ (if iv = Some True then [''invalidate''] else []) \<and>
       ws_posted (snd stub) \<noteq> ws_posted (snd proxy))"
proof -
  let ?proxy = "WorkerStore_apply ops iv ws"
  let ?mid = "ws_messageId ws + 1"
  let ?p = "length (ws_waiters ws)"
  have q: "ws_messageQueue (snd ?proxy) ?mid = Some ?p" by (simp add: WorkerStore_apply_parts)
  have p: "?p < length (ws_waiters (snd ?proxy))" by (simp add: WorkerStore_apply_parts)
  have pend: "settled (ws_waiters (snd ?proxy) ! ?p) = None" by (simp add: WorkerStore_apply_parts)
  let ?answered = "WorkerStore_onmessage \<lparr>data_id = ?mid, data_result = res\<rparr> (snd ?proxy)"
  have a: "?answered = (resolve_waiter ?p res (snd ?proxy))
             \<lparr>ws_messageQueue := (ws_messageQueue (resolve_waiter ?p res (snd ?proxy)))(?mid := None)\<rparr>"
    using q by (simp add: WorkerStore_onmessage_def Let_def)
  note rw = resolve_waiter_pending [OF p pend, of res]
  have 1: "settled (ws_waiters ?answered ! ?p) = Some res"
    unfolding a by (simp add: rw WorkerStore_apply_parts)
  have "ws_events ?answered =
      ws_events ws @ (if (case iv of None \<Rightarrow> False | Some b \<Rightarrow> b) then [''invalidate''] else [])"
    unfolding a by (simp add: rw WorkerStore_apply_parts)
  also have "(case iv of None \<Rightarrow> False | Some b \<Rightarrow> b) = (iv = Some True)"
    by (cases iv) auto
  finally have 2: "ws_events ?answered = ws_events ws @ (if iv = Some True then [''invalidate''] else [])" .
  show ?thesis
    unfolding Let_def
    using 1 2 by (simp add: WorkerStore_apply_parts) (simp add: WorkerStore_apply_stub_def)
qed

theorem apply_revisions_differ_witness:
  "(let ops = [Replace \<lparr>segments = [''test'']\<rparr> (JStr ''test'')];
        stub = WorkerStore_apply_stub ops (Some True) WorkerStore_new;
        proxy = WorkerStore_apply ops (Some True) WorkerStore_new;
        answered = WorkerStore_onmessage \<lparr>data_id = 1, data_result = JArr []\<rparr> (snd proxy)
    in ws_posted (snd stub) = [] \<and>
       settled (ws_waiters (snd stub) ! fst stub) = Some (JObj Map.empty) \<and>
       ws_posted (snd proxy) =
         [\<lparr>msg_id = 1, msg_type = ''apply'',
           msg_payload = PayloadOperations [Replace ''/test'' (JStr ''test'')]\<rparr>] \<and>
       settled (ws_waiters (snd proxy) ! fst proxy) = None \<and>
       ws_events (snd proxy) = [] \<and>
       settled (ws_waiters answered ! fst proxy) = Some (JArr []) \<and>
       ws_events answered = [''invalidate''])"
  using apply_revisions_differ [of "[Replace \<lparr>segments = [''test'']\<rparr> (JStr ''test'')]" "Some True"
      WorkerStore_new "JArr []"]
  by (simp add: Let_def WorkerStore_new_def Pointer_path_def)

section \<open>C10: \<open>WorkerStore.path\<close> resolves nothing\<close>

text \<open>
  C10: for every string or base path and all segments, \<open>path\<close> of the proxying revision
  returns a path whose state is the empty object and whose value is the empty array;
  its pointer string is built as in \<open>Store.path\<close>, whose value is the pointer resolved
  against the root of the store.
\<close>

theorem WorkerStore_path_never_resolves:
  "state (WorkerStore_path p segs) = JObj Map.empty \<and>
   value' (WorkerStore_path p segs) = JArr [] \<and>
   path (WorkerStore_path p segs) = Pointer_path (path_pointer p segs) \<and>
   state (Store_path pg p' segs' s) = store_state s \<and>
   value' (Store_path pg p' segs' s) = pg (path_pointer p' segs') (store_state s) \<and>
   path (Store_path pg p' segs' s) = Pointer_path (path_pointer p' segs')"
  by (simp add: WorkerStore_path_def Store_path_def Let_def)

theorem WorkerStore_path_never_resolves_witness:
  "WorkerStore_path (Inl ''a'') [] = \<lparr>path = ''/a'', state = JObj Map.empty, value' = JArr []\<rparr> \<and>
   WorkerStore_path (Inl ''a'') [Some ''b'', None] = \<lparr>path = ''/a/b'', state = JObj Map.empty, value' = JArr []\<rparr> \<and>
   Store_path Pointer_get (Inl ''a'') [] two_paths_store =
     \<lparr>path = ''/a'', state = store_state two_paths_store, value' = Some (JNum 1)\<rparr>"
  using WorkerStore_path_never_resolves [of "Inl ''a''" "[]" Pointer_get "Inl ''a''" "[]" two_paths_store]
    WorkerStore_path_never_resolves [of "Inl ''a''" "[Some ''b'', None]" Pointer_get "Inl ''a''" "[]" two_paths_store]
  by (simp add: WorkerStore_path_def Store_path_def path_pointer_def isString_def Pointer_new_def
      Pointer_path_def Pointer_get_def two_paths_store_eval)

end
